theory Spec2Isabelle
  imports Main "HOL-Library.AList"
begin

section \<open>Strings and rune classes\<close>

text \<open>
  A Go string is modelled by the list of its runes: \<open>utf8.DecodeRuneInString\<close> and
  \<open>range\<close> visit one list element at a time, and every index and length counts runes.
  The runes are the code points U+0000 to U+00FF, the range of \<^typ>\<open>char\<close>; the classes
  of package \<open>unicode\<close> are written out for that range (Go keeps the same table for
  Latin-1 in \<open>unicode/tables.go\<close>).
\<close>

definition spaceRunes :: "char list" where
  "spaceRunes = [CHR 0x09, CHR 0x0A, CHR 0x0B, CHR 0x0C, CHR 0x0D, CHR '' '', CHR 0x85, CHR 0xA0]"

definition IsSpace :: "char \<Rightarrow> bool" where
  "IsSpace r = (r \<in> set spaceRunes)"

definition upperRunes :: "char list" where
  "upperRunes = ''ABCDEFGHIJKLMNOPQRSTUVWXYZ'' @
     [CHR 0xC0, CHR 0xC1, CHR 0xC2, CHR 0xC3, CHR 0xC4, CHR 0xC5, CHR 0xC6, CHR 0xC7,
      CHR 0xC8, CHR 0xC9, CHR 0xCA, CHR 0xCB, CHR 0xCC, CHR 0xCD, CHR 0xCE, CHR 0xCF,
      CHR 0xD0, CHR 0xD1, CHR 0xD2, CHR 0xD3, CHR 0xD4, CHR 0xD5, CHR 0xD6,
      CHR 0xD8, CHR 0xD9, CHR 0xDA, CHR 0xDB, CHR 0xDC, CHR 0xDD, CHR 0xDE]"

definition lowerOfUpperRunes :: "char list" where
  "lowerOfUpperRunes = ''abcdefghijklmnopqrstuvwxyz'' @
     [CHR 0xE0, CHR 0xE1, CHR 0xE2, CHR 0xE3, CHR 0xE4, CHR 0xE5, CHR 0xE6, CHR 0xE7,
      CHR 0xE8, CHR 0xE9, CHR 0xEA, CHR 0xEB, CHR 0xEC, CHR 0xED, CHR 0xEE, CHR 0xEF,
      CHR 0xF0, CHR 0xF1, CHR 0xF2, CHR 0xF3, CHR 0xF4, CHR 0xF5, CHR 0xF6,
      CHR 0xF8, CHR 0xF9, CHR 0xFA, CHR 0xFB, CHR 0xFC, CHR 0xFD, CHR 0xFE]"

definition IsUpper :: "char \<Rightarrow> bool" where
  "IsUpper r = (r \<in> set upperRunes)"

definition IsLower :: "char \<Rightarrow> bool" where
  "IsLower r = (r \<in> set (lowerOfUpperRunes @ [CHR 0xB5, CHR 0xDF, CHR 0xFF]))"

definition IsLetter :: "char \<Rightarrow> bool" where
  "IsLetter r = (IsUpper r \<or> IsLower r \<or> r = CHR 0xAA \<or> r = CHR 0xBA)"

definition punctRunes :: "char list" where
  "punctRunes = [CHR ''!'', CHR 0x22, CHR ''#'', CHR ''%'', CHR ''&'', CHR 0x27, CHR ''('', CHR '')'',
     CHR ''*'', CHR '','', CHR ''-'', CHR ''.'', CHR ''/'', CHR '':'', CHR '';'', CHR ''?'', CHR ''@'',
     CHR ''['', CHR 0x5C, CHR '']'', CHR ''_'', CHR ''{'', CHR ''}'',
     CHR 0xA1, CHR 0xA7, CHR 0xAB, CHR 0xB6, CHR 0xB7, CHR 0xBB, CHR 0xBF]"

definition IsPunct :: "char \<Rightarrow> bool" where
  "IsPunct r = (r \<in> set punctRunes)"

definition toLowerRune :: "char \<Rightarrow> char" where
  "toLowerRune r = (case map_of (zip upperRunes lowerOfUpperRunes) r of Some l \<Rightarrow> l | None \<Rightarrow> r)"

definition ToLower :: "string \<Rightarrow> string" where
  "ToLower s = map toLowerRune s"

definition TrimSpace :: "string \<Rightarrow> string" where
  "TrimSpace s = rev (dropWhile IsSpace (rev (dropWhile IsSpace s)))"

text \<open>\<open>strings.Join\<close>.\<close>

fun Join :: "string list \<Rightarrow> string \<Rightarrow> string" where
  "Join [] sep = []"
| "Join [w] sep = w"
| "Join (w # v # ws) sep = w @ sep @ Join (v # ws) sep"

text \<open>Go's \<open><\<close> on strings: lexicographic on the bytes, which for UTF-8 is the order of
  the code points.\<close>

fun strLess :: "string \<Rightarrow> string \<Rightarrow> bool" where
  "strLess [] [] = False"
| "strLess [] (y # ys) = True"
| "strLess (x # xs) [] = False"
| "strLess (x # xs) (y # ys) =
     (if (of_char x :: nat) < of_char y then True
      else if (of_char y :: nat) < of_char x then False
      else strLess xs ys)"

text \<open>\<open>strconv.Itoa\<close>.\<close>

function natToDec :: "nat \<Rightarrow> string" where
  "natToDec n = (if n < 10 then [''0123456789'' ! n]
                 else natToDec (n div 10) @ [''0123456789'' ! (n mod 10)])"
  by pat_completeness auto
termination
  by (relation "measure (\<lambda>n. n)") auto

definition Itoa :: "int \<Rightarrow> string" where
  "Itoa i = (if i < 0 then CHR ''-'' # natToDec (nat (- i)) else natToDec (nat i))"

section \<open>Brace trees (bib/braces.go)\<close>

text \<open>
  \<open>Children\<close> is a slice of node pointers; \<open>None\<close> is the nil slice of a node made by
  \<open>&BraceNode{Leaf: accum}\<close>, \<open>Some []\<close> the empty slice made by \<open>make\<close>.
\<close>

datatype BraceNode = BraceNode (Children: "BraceNode list option") (Leaf: string)

definition kidsOf :: "BraceNode \<Rightarrow> BraceNode list" where
  "kidsOf bn = (case Children bn of None \<Rightarrow> [] | Some cs \<Rightarrow> cs)"

definition IsLeaf :: "BraceNode \<Rightarrow> bool" where
  "IsLeaf bn = (length (kidsOf bn) = 0)"

text \<open>The closure \<open>saveAccum\<close> of \<open>ParseBraceTree\<close>, on the children collected so far.\<close>

definition saveAccum :: "BraceNode list \<Rightarrow> string \<Rightarrow> BraceNode list" where
  "saveAccum kids accum = (if length accum > 0 then kids @ [BraceNode None accum] else kids)"

text \<open>
  The loop of \<open>ParseBraceTree\<close>: \<open>rest\<close> is \<open>s[i:]\<close>, \<open>kids\<close> is \<open>me.Children\<close> and
  \<open>accum\<close> the text buffered for the next leaf. The recursive call parses \<open>s[i+iskip:]\<close>
  from scratch, and the loop goes on after the \<open>nread\<close> runes it consumed.
\<close>

function parseLoop :: "string \<Rightarrow> nat \<Rightarrow> BraceNode list \<Rightarrow> string \<Rightarrow> BraceNode \<times> nat" where
  "parseLoop [] i kids accum = (BraceNode (Some (saveAccum kids accum)) [], i)"
| "parseLoop (r # rest) i kids accum =
     (if r = CHR ''{'' then
        (case parseLoop rest 0 [] [] of
           (c, nread) \<Rightarrow> parseLoop (drop nread rest) (i + (1 + nread)) (saveAccum kids accum @ [c]) [])
      else if r = CHR ''}'' then (BraceNode (Some (saveAccum kids accum)) [], i + 1)
      else parseLoop rest (i + 1) kids (accum @ [r]))"
  by pat_completeness auto
termination
  by (relation "measure (\<lambda>(rest, i, kids, accum). length rest)") auto

definition ParseBraceTree :: "string \<Rightarrow> BraceNode \<times> nat" where
  "ParseBraceTree s = parseLoop s 0 [] []"

definition IsEntireStringBraced :: "BraceNode \<Rightarrow> bool" where
  "IsEntireStringBraced bn = (length (kidsOf bn) = 1 \<and> \<not> IsLeaf (kidsOf bn ! 0))"

definition ContainsNoBraces :: "BraceNode \<Rightarrow> bool" where
  "ContainsNoBraces bn = (length (kidsOf bn) = 1 \<and> IsLeaf (kidsOf bn ! 0))"

text \<open>\<open>flatten\<close>: a node without children is a leaf and yields its text.\<close>

fun flatten :: "BraceNode \<Rightarrow> bool \<Rightarrow> bool \<Rightarrow> string" where
  "flatten (BraceNode None lf) isroot inclbraces = lf"
| "flatten (BraceNode (Some cs) lf) isroot inclbraces =
     (if cs = [] then lf
      else (let wrds = map (\<lambda>c. flatten c False inclbraces) cs in
            if isroot then concat wrds
            else if inclbraces then ''{'' @ concat wrds @ ''}''
            else concat wrds))"

definition Flatten :: "BraceNode \<Rightarrow> string" where
  "Flatten bn = TrimSpace (flatten bn True True)"

definition FlattenForSorting :: "BraceNode \<Rightarrow> string" where
  "FlattenForSorting bn = flatten bn True False"

text \<open>
  Balanced braces, as the claims about brace trees need them: \<open>balancedFrom d\<close> reads a
  string at nesting depth \<open>d\<close>, never closes a group that is not open, and ends at depth
  0. \<open>hasEmptyGroup\<close> finds an opening brace that is closed at once. Like
  \<open>ParseBraceTree\<close>, neither looks at backslashes. \<open>flatKids\<close> is the text of a list of
  children, as \<open>flatten\<close> joins it.
\<close>

fun balancedFrom :: "nat \<Rightarrow> string \<Rightarrow> bool" where
  "balancedFrom d [] = (d = 0)"
| "balancedFrom d (r # rest) =
     (if r = CHR ''{'' then balancedFrom (Suc d) rest
      else if r = CHR ''}'' then (case d of 0 \<Rightarrow> False | Suc d' \<Rightarrow> balancedFrom d' rest)
      else balancedFrom d rest)"

definition balanced :: "string \<Rightarrow> bool" where
  "balanced s = balancedFrom 0 s"

fun hasEmptyGroup :: "string \<Rightarrow> bool" where
  "hasEmptyGroup [] = False"
| "hasEmptyGroup [r] = False"
| "hasEmptyGroup (a # b # rest) = ((a = CHR ''{'' \<and> b = CHR ''}'') \<or> hasEmptyGroup (b # rest))"

definition flatKids :: "BraceNode list \<Rightarrow> string" where
  "flatKids ks = concat (map (\<lambda>c. flatten c False True) ks)"

section \<open>Values, entries and the database\<close>

datatype FieldType = StringType | NumberType | SymbolType

text \<open>\<open>I\<close> is a Go \<open>int\<close>; it is only compared and printed, never computed with.\<close>

record Value =
  T :: FieldType
  S :: string
  I :: int

record Author =
  Others :: bool
  First :: string
  Last :: string
  Von :: string
  Jr :: string

text \<open>\<open>EntryKind\<close> is a string type whose values are the constants below.\<close>

type_synonym EntryKind = string

definition Deleted :: EntryKind where "Deleted = ''**DELETED**''"
definition Other :: EntryKind where "Other = ''other''"
definition StringKind :: EntryKind where "StringKind = ''string''"
definition PreambleKind :: EntryKind where "PreambleKind = ''preamble''"
definition Article :: EntryKind where "Article = ''article''"
definition Book :: EntryKind where "Book = ''book''"

text \<open>
  \<open>Fields\<close> is a Go map from tag to value. It is kept as an association list with
  distinct tags, so that ranging over it is a list traversal; \<open>map_of\<close> is the lookup and
  \<open>AList.update\<close> the assignment \<open>Fields[tag] = v\<close>.
\<close>

record Entry =
  Kind :: EntryKind
  EntryString :: string
  Key :: string
  Fields :: "(string \<times> Value) list"
  AuthorList :: "Author list"
  LineNo :: int

record BibTeXError =
  BadEntry :: "Entry option"
  Tag :: string
  Msg :: string

record Database =
  Pubs :: "Entry list"
  Symbols :: "string \<rightharpoonup> Value"
  Preamble :: "string list"
  Errors :: "BibTeXError list"

definition predefinedSymbols :: "string \<rightharpoonup> string" where
  "predefinedSymbols = map_of
     [(''jan'', ''January''), (''feb'', ''February''), (''mar'', ''March''),
      (''apr'', ''April''), (''may'', ''May''), (''jun'', ''June''),
      (''jul'', ''July''), (''aug'', ''August''), (''sep'', ''September''),
      (''oct'', ''October''), (''nov'', ''November''), (''dec'', ''December'')]"

text \<open>
  The loop of \<open>SymbolValue\<close>, with its counter \<open>i\<close>; \<open>depth\<close> is a Go \<open>int\<close> and may be
  zero or negative.
\<close>

function SymbolValueLoop :: "(string \<rightharpoonup> Value) \<Rightarrow> Value \<Rightarrow> int \<Rightarrow> int \<Rightarrow> Value" where
  "SymbolValueLoop syms symb i depth =
     (if i < depth \<and> T symb = SymbolType then
        (case syms (ToLower (S symb)) of
           Some v \<Rightarrow> SymbolValueLoop syms v (i + 1) depth
         | None \<Rightarrow>
            (case predefinedSymbols (ToLower (S symb)) of
               Some v \<Rightarrow> \<lparr>T = StringType, S = v, I = 0\<rparr>
             | None \<Rightarrow> symb))
      else symb)"
  by pat_completeness auto
termination
  by (relation "measure (\<lambda>(syms, symb, i, depth). nat (depth - i))") auto

definition SymbolValue :: "Database \<Rightarrow> Value \<Rightarrow> int \<Rightarrow> Value" where
  "SymbolValue db symb depth = SymbolValueLoop (Symbols db) symb 0 depth"

definition Less :: "Database \<Rightarrow> Value \<Rightarrow> Value \<Rightarrow> bool" where
  "Less db a b =
     (let v1 = SymbolValue db a 10; v2 = SymbolValue db b 10 in
      if (T v1 = StringType \<or> T v1 = SymbolType) \<and> (T v2 = StringType \<or> T v2 = SymbolType)
      then strLess (FlattenForSorting (fst (ParseBraceTree (S v1))))
                   (FlattenForSorting (fst (ParseBraceTree (S v2))))
      else if T v1 = NumberType \<and> T v2 = NumberType then I v1 < I v2
      else (let vs1 = (if T v1 = NumberType then Itoa (I v1) else S v1);
                vs2 = (if T v2 = NumberType then Itoa (I v2) else S v2)
            in strLess vs1 vs2))"

definition ValueEquals :: "Value \<Rightarrow> Value \<Rightarrow> bool" where
  "ValueEquals v1 v2 =
     (if T v1 = T v2 then
        (case T v1 of
           StringType \<Rightarrow> S v1 = S v2
         | SymbolType \<Rightarrow> S v1 = S v2
         | NumberType \<Rightarrow> I v1 = I v2)
      else False)"

section \<open>Words and minimal braces (bib/braces.go)\<close>

text \<open>The loop of \<open>splitWords\<close>: the runes still to read, \<open>inspace\<close>, \<open>word\<close>, \<open>words\<close>.\<close>

fun splitWordsLoop :: "string \<Rightarrow> bool \<Rightarrow> string \<Rightarrow> string list \<Rightarrow> string list" where
  "splitWordsLoop [] inspace word wrds = (if word \<noteq> [] then wrds @ [word] else wrds)"
| "splitWordsLoop (r # rest) inspace word wrds =
     (if inspace \<and> IsSpace r then splitWordsLoop rest inspace (word @ [r]) wrds
      else if \<not> inspace \<and> \<not> IsSpace r then splitWordsLoop rest inspace (word @ [r]) wrds
      else splitWordsLoop rest (IsSpace r) [r] (if word \<noteq> [] then wrds @ [word] else wrds))"

text \<open>On the empty string \<open>DecodeRuneInString\<close> yields \<open>RuneError\<close>, which is no space.\<close>

definition splitWords :: "string \<Rightarrow> string list" where
  "splitWords s = splitWordsLoop s (case s of [] \<Rightarrow> False | c # _ \<Rightarrow> IsSpace c) [] []"

text \<open>The loop of \<open>IsStrangeCase\<close>, with its counter \<open>p\<close> and \<open>prevRune\<close>.\<close>

fun isStrangeCaseLoop :: "string \<Rightarrow> nat \<Rightarrow> char \<Rightarrow> bool" where
  "isStrangeCaseLoop [] p prevRune = False"
| "isStrangeCaseLoop (r # rest) p prevRune =
     (if p > 0 \<and> prevRune \<noteq> CHR ''-'' \<and> IsUpper r then True
      else isStrangeCaseLoop rest (if \<not> IsPunct r then p + 1 else p) r)"

definition IsStrangeCase :: "string \<Rightarrow> bool" where
  "IsStrangeCase s = isStrangeCaseLoop s 0 (CHR '' '')"

fun HasQuote :: "string \<Rightarrow> bool" where
  "HasQuote [] = False"
| "HasQuote (r # rest) = (if r = CHR 0x22 then True else HasQuote rest)"

definition minBraceWord :: "string \<Rightarrow> string" where
  "minBraceWord w = (if IsStrangeCase w \<or> HasQuote w then ''{'' @ w @ ''}'' else w)"

text \<open>\<open>FlattenToMinBraces\<close> tests \<open>bn.Children != nil\<close>, not the shape of the tree.\<close>

definition FlattenToMinBraces :: "BraceNode \<Rightarrow> string" where
  "FlattenToMinBraces bn =
     (case Children bn of
        Some cs \<Rightarrow>
          concat (concat (map (\<lambda>c. if IsLeaf c then map minBraceWord (splitWords (Leaf c))
                                     else [flatten c False True]) cs))
      | None \<Rightarrow> Flatten bn)"

text \<open>The transform of \<open>ConvertTitlesToMinBraces\<close> on one field.\<close>

definition ConvertTitleToMinBraces :: "string \<Rightarrow> Value \<Rightarrow> Value" where
  "ConvertTitleToMinBraces tag v =
     (if T v = StringType \<and> (tag = ''title'' \<or> tag = ''booktitle'') then
        (case ParseBraceTree (S v) of
           (bn, nread) \<Rightarrow> if nread = length (S v) then v\<lparr>S := FlattenToMinBraces bn\<rparr> else v)
      else v)"

section \<open>Duplicate and subset elimination\<close>

definition IsSubset :: "Entry \<Rightarrow> Entry \<Rightarrow> bool" where
  "IsSubset e1 e2 =
     (if Kind e1 \<noteq> Kind e2 \<or> ToLower (EntryString e1) \<noteq> ToLower (EntryString e2) then False
      else list_all (\<lambda>(tag, value1).
             case map_of (Fields e2) tag of
               None \<Rightarrow> False
             | Some value2 \<Rightarrow> ValueEquals value1 value2) (Fields e1))"

definition EntryEquals :: "Entry \<Rightarrow> Entry \<Rightarrow> bool" where
  "EntryEquals e1 e2 = (IsSubset e1 e2 \<and> IsSubset e2 e1)"

datatype panic = IndexOutOfRange | SliceBoundsOutOfRange | MakeSliceLenOutOfRange | NilDereference

text \<open>
  \<open>Pubs\<close> holds pointers, and the bins of the duplicate passes hold the same pointers, so
  that marking an entry through a bin marks it in \<open>Pubs\<close>. The model keeps the entries in
  one list, the store, and a pointer is the position of its entry in \<open>Pubs\<close> (the parser
  appends a fresh entry for each block, so no pointer occurs twice and none is nil).
  Go ranges over a map in an order it does not fix: the passes take the order of the keys
  as the argument \<open>ks\<close>, and \<open>rangeOrder\<close> says that \<open>ks\<close> is such an order.
\<close>

type_synonym bins = "string \<rightharpoonup> nat list"

definition rangeOrder :: "bins \<Rightarrow> string list \<Rightarrow> bool" where
  "rangeOrder b ks = (distinct ks \<and> set ks = dom b)"

definition binAppend :: "bins \<Rightarrow> string \<Rightarrow> nat \<Rightarrow> bins" where
  "binAppend b key p = b(key \<mapsto> (case b key of None \<Rightarrow> [] | Some ps \<Rightarrow> ps) @ [p])"

definition markDeleted :: "Entry list \<Rightarrow> nat \<Rightarrow> Entry list" where
  "markDeleted st p = st[p := (st ! p)\<lparr>Kind := Deleted\<rparr>]"

definition exactBins :: "Entry list \<Rightarrow> bins" where
  "exactBins pubs = fold (\<lambda>p b. binAppend b (ToLower (Key (pubs ! p))) p) [0..<length pubs] Map.empty"

text \<open>The inner loop of \<open>RemoveExactDups\<close>: is \<open>entries[i]\<close> equal to some \<open>entries[j]\<close>,
  \<open>j > i\<close>? It stops at the first one (\<open>break\<close>).\<close>

fun hasLaterDup :: "Entry list \<Rightarrow> nat \<Rightarrow> nat list \<Rightarrow> bool" where
  "hasLaterDup st p [] = False"
| "hasLaterDup st p (q # qs) = (if EntryEquals (st ! p) (st ! q) then True else hasLaterDup st p qs)"

text \<open>The loop over \<open>i\<close> in one bin; the state is the store and \<open>ndel\<close>.\<close>

fun exactDupsBin :: "nat list \<Rightarrow> Entry list \<times> int \<Rightarrow> Entry list \<times> int" where
  "exactDupsBin [] (st, ndel) = (st, ndel)"
| "exactDupsBin (p # ps) (st, ndel) =
     (if hasLaterDup st p ps then exactDupsBin ps (markDeleted st p, ndel + 1)
      else exactDupsBin ps (st, ndel))"

definition overBins :: "(nat list \<Rightarrow> Entry list \<times> int \<Rightarrow> Entry list \<times> int) \<Rightarrow>
    bins \<Rightarrow> string list \<Rightarrow> Entry list \<times> int \<Rightarrow> Entry list \<times> int" where
  "overBins pass b ks acc =
     fold (\<lambda>k a. case b k of None \<Rightarrow> a | Some entries \<Rightarrow> pass entries a) ks acc"

text \<open>
  \<open>removeDeleted\<close>: \<open>make\<close> panics on a negative length and \<open>newPubs[i] = e\<close> on an index
  past the end; a slot that is never written stays nil (\<open>None\<close>).
\<close>

fun fillSlots :: "Entry option list \<Rightarrow> nat \<Rightarrow> Entry list \<Rightarrow> panic + Entry option list" where
  "fillSlots newPubs i [] = Inr newPubs"
| "fillSlots newPubs i (e # es) =
     (if Kind e \<noteq> Deleted then
        (if i < length newPubs then fillSlots (newPubs[i := Some e]) (i + 1) es
         else Inl IndexOutOfRange)
      else fillSlots newPubs i es)"

definition removeDeleted :: "Entry list \<Rightarrow> int \<Rightarrow> panic + Entry option list" where
  "removeDeleted pubs ndel =
     (if int (length pubs) - ndel < 0 then Inl MakeSliceLenOutOfRange
      else fillSlots (replicate (nat (int (length pubs) - ndel)) None) 0 pubs)"

text \<open>The result of each pass is the slice it assigns to \<open>db.Pubs\<close>, or the panic.\<close>

definition RemoveExactDups :: "string list \<Rightarrow> Database \<Rightarrow> panic + Entry option list" where
  "RemoveExactDups ks db =
     (case overBins exactDupsBin (exactBins (Pubs db)) ks (Pubs db, 0) of
        (st, ndel) \<Rightarrow> removeDeleted st ndel)"

text \<open>The pair loops of \<open>RemoveContainedEntries\<close> and \<open>RemoveDupsByTitle\<close>: no \<open>break\<close>,
  and every test reads the store as the marks so far have left it.\<close>

fun containedInner :: "nat \<Rightarrow> nat list \<Rightarrow> Entry list \<times> int \<Rightarrow> Entry list \<times> int" where
  "containedInner p [] (st, ndel) = (st, ndel)"
| "containedInner p (q # qs) (st, ndel) =
     (if IsSubset (st ! p) (st ! q) then containedInner p qs (markDeleted st p, ndel + 1)
      else if IsSubset (st ! q) (st ! p) then containedInner p qs (markDeleted st q, ndel + 1)
      else containedInner p qs (st, ndel))"

fun containedBin :: "nat list \<Rightarrow> Entry list \<times> int \<Rightarrow> Entry list \<times> int" where
  "containedBin [] acc = acc"
| "containedBin (p # ps) acc = containedBin ps (containedInner p ps acc)"

definition titleBins :: "Entry list \<Rightarrow> bins" where
  "titleBins pubs =
     fold (\<lambda>p b. case map_of (Fields (pubs ! p)) ''title'' of
                    Some title \<Rightarrow> if T title = StringType then binAppend b (S title) p else b
                  | None \<Rightarrow> b)
          [0..<length pubs] Map.empty"

definition RemoveContainedEntries :: "string list \<Rightarrow> Database \<Rightarrow> panic + Entry option list" where
  "RemoveContainedEntries ks db =
     (case overBins containedBin (titleBins (Pubs db)) ks (Pubs db, 0) of
        (st, ndel) \<Rightarrow> removeDeleted st ndel)"

definition titleLowerWords :: "string list" where
  "titleLowerWords = [''the'', ''a'', ''an'', ''but'', ''for'', ''and'', ''or'',
     ''nor'', ''to'', ''from'', ''on'', ''in'', ''of'', ''at'', ''by'']"

definition removeNonLetters :: "string \<Rightarrow> string" where
  "removeNonLetters s = filter (\<lambda>r. IsLetter r \<or> IsSpace r) s"

text \<open>\<open>strings.Fields\<close>: the maximal runs of runes that are not spaces.\<close>

fun FieldsLoop :: "string \<Rightarrow> string \<Rightarrow> string list" where
  "FieldsLoop [] word = (if word \<noteq> [] then [word] else [])"
| "FieldsLoop (r # rest) word =
     (if IsSpace r then (if word \<noteq> [] then word # FieldsLoop rest [] else FieldsLoop rest [])
      else FieldsLoop rest (word @ [r]))"

definition titleHash :: "Entry \<Rightarrow> string" where
  "titleHash e =
     (case map_of (Fields e) ''title'' of
        Some titleval \<Rightarrow>
          if T titleval = StringType then
            (case ParseBraceTree (S titleval) of
               (bt, nread) \<Rightarrow>
                 if nread = length (S titleval) then
                   Join (filter (\<lambda>w. w \<notin> set titleLowerWords)
                           (map ToLower (FieldsLoop (removeNonLetters (FlattenForSorting bt)) []))) '' ''
                 else [])
          else []
      | None \<Rightarrow> [])"

definition FindDupsByTitle :: "Entry list \<Rightarrow> bins" where
  "FindDupsByTitle pubs = fold (\<lambda>p b. binAppend b (titleHash (pubs ! p)) p) [0..<length pubs] Map.empty"

definition dupsByTitleBin :: "string \<Rightarrow> nat list \<Rightarrow> Entry list \<times> int \<Rightarrow> Entry list \<times> int" where
  "dupsByTitleBin hash lst acc = (if hash \<noteq> [] \<and> length lst > 1 then containedBin lst acc else acc)"

definition RemoveDupsByTitle :: "string list \<Rightarrow> Database \<Rightarrow> panic + Entry option list" where
  "RemoveDupsByTitle ks db =
     (case fold (\<lambda>k a. case FindDupsByTitle (Pubs db) k of
                          None \<Rightarrow> a
                        | Some lst \<Rightarrow> dupsByTitleBin k lst a) ks (Pubs db, 0) of
        (st, ndel) \<Rightarrow> removeDeleted st ndel)"

section \<open>Author names\<close>

text \<open>
  \<open>splitOnTopLevelString\<close>: the loop over the index \<open>i\<close> and rune \<open>r\<close> of \<open>s\<close>, with
  \<open>rest = s[i:]\<close>. \<open>nbraces\<close> is a Go \<open>int\<close> and may go below zero; the bounds of the
  source are integer comparisons. The slice \<open>s[lastend:i]\<close> is taken only when
  \<open>i >= lastend\<close>, and \<open>s[i+len(sep):]\<close> is read only when \<open>i+len(sep) < len(s)-1\<close>.
\<close>

fun splitOnTopLevelStringLoop ::
  "string \<Rightarrow> string \<Rightarrow> bool \<Rightarrow> string \<Rightarrow> nat \<Rightarrow> int \<Rightarrow> nat \<Rightarrow> string list \<Rightarrow> char \<Rightarrow> string list" where
  "splitOnTopLevelStringLoop s sep whitespace [] i nbraces lastend split prevchar =
     split @ [drop lastend s]"
| "splitOnTopLevelStringLoop s sep whitespace (r # rest) i nbraces lastend split prevchar =
     (let nbraces' = (if r = CHR ''{'' then nbraces + 1
                      else if r = CHR ''}'' then nbraces - 1 else nbraces) in
      if nbraces' = 0 \<and> i \<ge> lastend \<and> int i < int (length s) - int (length sep) + 1 \<and>
         ToLower (take (length sep) (drop i s)) = sep
      then
        (let following = (if int (i + length sep) < int (length s) - 1
                          then s ! (i + length sep) else CHR '' '') in
         if \<not> whitespace \<or> (IsSpace prevchar \<and> IsSpace following)
         then splitOnTopLevelStringLoop s sep whitespace rest (i + 1) nbraces'
                (i + length sep) (split @ [take (i - lastend) (drop lastend s)]) r
         else splitOnTopLevelStringLoop s sep whitespace rest (i + 1) nbraces' lastend split r)
      else splitOnTopLevelStringLoop s sep whitespace rest (i + 1) nbraces' lastend split r)"

definition splitOnTopLevelString :: "string \<Rightarrow> string \<Rightarrow> bool \<Rightarrow> string list" where
  "splitOnTopLevelString s sep whitespace =
     splitOnTopLevelStringLoop s sep whitespace s 0 0 0 [] (CHR '' '')"

text \<open>The loop of \<open>splitOnTopLevel\<close>, after \<open>TrimSpace\<close>.\<close>

fun splitOnTopLevelLoop :: "string \<Rightarrow> int \<Rightarrow> string \<Rightarrow> string list \<Rightarrow> string list" where
  "splitOnTopLevelLoop [] nbraces word wrds = (if length word > 0 then wrds @ [word] else wrds)"
| "splitOnTopLevelLoop (r # rest) nbraces word wrds =
     (let nbraces' = (if r = CHR ''{'' then nbraces + 1
                      else if r = CHR ''}'' then nbraces - 1 else nbraces) in
      if nbraces' = 0 \<and> IsSpace r then
        (if length word > 0 then splitOnTopLevelLoop rest nbraces' [] (wrds @ [word])
         else splitOnTopLevelLoop rest nbraces' word wrds)
      else splitOnTopLevelLoop rest nbraces' (word @ [r]) wrds)"

definition splitOnTopLevel :: "string \<Rightarrow> string list" where
  "splitOnTopLevel s = splitOnTopLevelLoop (TrimSpace s) 0 [] []"

text \<open>The first rune of a word, tested with a rune class; \<open>DecodeRuneInString\<close> of the
  empty string is \<open>RuneError\<close>, which is in no class.\<close>

definition firstRuneIs :: "(char \<Rightarrow> bool) \<Rightarrow> string \<Rightarrow> bool" where
  "firstRuneIs cls w = (case w of [] \<Rightarrow> False | r # _ \<Rightarrow> cls r)"

text \<open>The loop of \<open>parseVon\<close>: \<open>j\<close> runs down from \<open>len(last) - 2\<close> and stops at a word
  that starts in lower case, or at \<open>-1\<close>.\<close>

function parseVonLoop :: "string list \<Rightarrow> int \<Rightarrow> int" where
  "parseVonLoop lst j =
     (if j \<ge> 0 then (if firstRuneIs IsLower (lst ! nat j) then j else parseVonLoop lst (j - 1))
      else j)"
  by pat_completeness auto
termination
  by (relation "measure (\<lambda>(lst, j). nat (j + 1))") auto

declare parseVonLoop.simps [simp del]

text \<open>\<open>parseVon\<close>; on the empty list \<open>j + 1\<close> is \<open>-1\<close> and the slice \<open>last[j+1:]\<close> panics.\<close>

definition parseVon :: "string list \<Rightarrow> panic + (string \<times> string)" where
  "parseVon lst =
     (if length lst = 1 then Inr ([], lst ! 0)
      else (let j = parseVonLoop lst (int (length lst) - 2) in
            if j + 1 < 0 then Inl SliceBoundsOutOfRange
            else Inr (if j \<ge> 0 then Join (take (nat (j + 1)) lst) '' '' else [],
                      Join (drop (nat (j + 1)) lst) '' '')))"

text \<open>The loop of \<open>parseNameParts\<close> runs while \<open>i < len(s) - 1\<close>, that is while two
  words at least are left; it returns \<open>first\<close> and \<open>s[i:]\<close>.\<close>

fun parseNamePartsLoop :: "string list \<Rightarrow> string \<Rightarrow> string \<Rightarrow> string \<times> string list" where
  "parseNamePartsLoop (w # v # ws) first space =
     (if firstRuneIs IsUpper w then parseNamePartsLoop (v # ws) (first @ space @ w) '' ''
      else (first, w # v # ws))"
| "parseNamePartsLoop ws first space = (first, ws)"

definition parseNameParts :: "string \<Rightarrow> panic + (string \<times> string \<times> string)" where
  "parseNameParts name =
     (case parseNamePartsLoop (splitOnTopLevel name) [] [] of
        (first, rest) \<Rightarrow>
          (case parseVon rest of
             Inl p \<Rightarrow> Inl p
           | Inr (von, lastName) \<Rightarrow> Inr (first, von, lastName)))"

text \<open>\<open>NormalizeName\<close> returns an author, nil (\<open>None\<close>), or panics.\<close>

definition NormalizeName :: "string \<Rightarrow> panic + Author option" where
  "NormalizeName name0 =
     (let name = TrimSpace name0 in
      if length name = 0 then Inr None
      else if ToLower name = ''others''
      then Inr (Some \<lparr>Others = True, First = [], Last = [], Von = [], Jr = []\<rparr>)
      else
        (let parts = map TrimSpace (splitOnTopLevelString name '','' False) in
         if length parts = 1 then
           (case parseNameParts (parts ! 0) of
              Inl p \<Rightarrow> Inl p
            | Inr (f, v, l) \<Rightarrow> Inr (Some \<lparr>Others = False, First = f, Last = l, Von = v, Jr = []\<rparr>))
         else if length parts = 2 then
           (case parseVon (splitOnTopLevel (parts ! 0)) of
              Inl p \<Rightarrow> Inl p
            | Inr (v, l) \<Rightarrow>
                Inr (Some \<lparr>Others = False, First = parts ! 1, Last = l, Von = v, Jr = []\<rparr>))
         else if length parts = 3 then
           (case parseVon (splitOnTopLevel (parts ! 0)) of
              Inl p \<Rightarrow> Inl p
            | Inr (v, l) \<Rightarrow>
                Inr (Some \<lparr>Others = False, First = parts ! 2, Last = l, Von = v, Jr = parts ! 1\<rparr>))
         else Inr None))"

text \<open>The loop of \<open>quoteName\<close>: is there a double quote at brace depth 0?\<close>

fun hasTopQuote :: "string \<Rightarrow> int \<Rightarrow> bool \<Rightarrow> bool" where
  "hasTopQuote [] nbrace hastopquote = hastopquote"
| "hasTopQuote (r # rest) nbrace hastopquote =
     (if r = CHR ''{'' then hasTopQuote rest (nbrace + 1) hastopquote
      else if r = CHR ''}'' then hasTopQuote rest (nbrace - 1) hastopquote
      else if r = CHR 0x22 then hasTopQuote rest nbrace (if nbrace = 0 then True else hastopquote)
      else hasTopQuote rest nbrace hastopquote)"

definition quoteName :: "string \<Rightarrow> string" where
  "quoteName s = (if hasTopQuote s 0 False then ''{'' @ s @ ''}'' else s)"

text \<open>\<open>Author.String\<close>.\<close>

definition AuthorString :: "Author \<Rightarrow> string" where
  "AuthorString a =
     (if Others a then ''others''
      else (let last0 = (if Von a \<noteq> [] then Von a @ '' '' @ Last a else Last a);
                lastq = quoteName last0;
                first = quoteName (First a);
                jr = quoteName (Jr a)
            in if lastq = [] then First a
               else if First a = [] then lastq
               else if Jr a = [] then lastq @ '', '' @ first
               else lastq @ '', '' @ jr @ '', '' @ first))"

section \<open>Lexer (lexer/lexer.go)\<close>

text \<open>\<open>TokenType\<close> is a string type whose values are the constants below.\<close>

type_synonym TokenType = string

definition ILLEGAL :: TokenType where "ILLEGAL = ''ILLEGAL''"
definition EOF :: TokenType where "EOF = ''EOF''"
definition IDENT :: TokenType where "IDENT = ''IDENT''"
definition STRING :: TokenType where "STRING = ''STRING''"
definition AT :: TokenType where "AT = ''@''"
definition COMMA :: TokenType where "COMMA = '',''"
definition LBRACE :: TokenType where "LBRACE = ''{''"
definition RBRACE :: TokenType where "RBRACE = ''}''"
definition HASH :: TokenType where "HASH = ''#''"
definition EQUALS :: TokenType where "EQUALS = ''=''"

lemmas TokenType_defs = ILLEGAL_def EOF_def IDENT_def STRING_def AT_def COMMA_def
  LBRACE_def RBRACE_def HASH_def EQUALS_def

record Token =
  Type :: TokenType
  Literal :: string
  tokLineno :: int
  tokColno :: int

definition EOFToken :: Token where
  "EOFToken = \<lparr>Type = EOF, Literal = [], tokLineno = 0, tokColno = 0\<rparr>"

text \<open>
  The lexer reads runes from a buffered reader: \<open>stream\<close> is what is still unread, and
  the only error of the reader is the end of the input, \<open>io.EOF\<close>, kept in \<open>err\<close>.
\<close>

record Lexer =
  stream :: string
  ch :: char
  err :: bool
  lineno :: int
  colno :: int

definition nextRune :: "Lexer \<Rightarrow> bool \<times> Lexer" where
  "nextRune l =
     (case stream l of
        [] \<Rightarrow> (False, l\<lparr>err := True\<rparr>)
      | c # cs \<Rightarrow>
          (True, if c = CHR 0x0A
                 then l\<lparr>stream := cs, ch := c, lineno := lineno l + 1, colno := 1\<rparr>
                 else l\<lparr>stream := cs, ch := c, colno := colno l + 1\<rparr>))"

definition NewLexer :: "string \<Rightarrow> Lexer" where
  "NewLexer f = snd (nextRune \<lparr>stream = f, ch = CHR 0x00, err = False, lineno = 1, colno = 1\<rparr>)"

text \<open>\<open>skipWhitespace\<close>: the result is the lexer; the error it returns is \<open>err\<close> of it.\<close>

function skipWhitespace :: "Lexer \<Rightarrow> Lexer" where
  "skipWhitespace l =
     (if \<not> IsSpace (ch l) then l
      else (case nextRune l of
              (True, l') \<Rightarrow> skipWhitespace l'
            | (False, l') \<Rightarrow> l'))"
  by pat_completeness auto
termination
  by (relation "measure (\<lambda>l. length (stream l))")
     (auto simp: nextRune_def split: list.splits if_splits)

declare skipWhitespace.simps [simp del]

function readQuoteStringLoop :: "Lexer \<Rightarrow> bool \<Rightarrow> string \<Rightarrow> string \<times> Lexer" where
  "readQuoteStringLoop l escape b =
     (case nextRune l of
        (False, l') \<Rightarrow> ([], l')
      | (True, l') \<Rightarrow>
          if ch l' = CHR 0x22 \<and> \<not> escape then (b, snd (nextRune l'))
          else readQuoteStringLoop l' (\<not> escape \<and> ch l' = CHR 0x5C) (b @ [ch l']))"
  by pat_completeness auto
termination
  by (relation "measure (\<lambda>(l, escape, b). length (stream l))")
     (auto simp: nextRune_def split: list.splits if_splits)

declare readQuoteStringLoop.simps [simp del]

definition readQuoteString :: "Lexer \<Rightarrow> string \<times> Lexer" where
  "readQuoteString l = readQuoteStringLoop l False []"

definition identStop :: "char \<Rightarrow> bool" where
  "identStop r = (IsSpace r \<or> r \<in> set [CHR ''@'', CHR ''#'', CHR '','', CHR ''{'', CHR ''}'',
                                          CHR ''='', CHR 0x22, CHR ''(''])"

function readIdentLoop :: "Lexer \<Rightarrow> string \<Rightarrow> string \<times> Lexer" where
  "readIdentLoop l b =
     (case nextRune l of
        (False, l') \<Rightarrow> ([], l')
      | (True, l') \<Rightarrow> if identStop (ch l') then (b, l') else readIdentLoop l' (b @ [ch l']))"
  by pat_completeness auto
termination
  by (relation "measure (\<lambda>(l, b). length (stream l))")
     (auto simp: nextRune_def split: list.splits if_splits)

declare readIdentLoop.simps [simp del]

definition readIdent :: "Lexer \<Rightarrow> string \<times> Lexer" where
  "readIdent l = readIdentLoop l [ch l]"

function readBracesStringLoop :: "Lexer \<Rightarrow> bool \<Rightarrow> string \<Rightarrow> int \<Rightarrow> string \<times> Lexer" where
  "readBracesStringLoop l escape b bcount =
     (case nextRune l of
        (False, l') \<Rightarrow> ([], l')
      | (True, l') \<Rightarrow>
          (let bcount' = (if ch l' = CHR ''{'' \<and> \<not> escape then bcount + 1
                          else if ch l' = CHR ''}'' \<and> \<not> escape then bcount - 1
                          else bcount) in
           if bcount' = 0 then (b, snd (nextRune l'))
           else readBracesStringLoop l' (\<not> escape \<and> ch l' = CHR 0x5C) (b @ [ch l']) bcount'))"
  by pat_completeness auto
termination
  by (relation "measure (\<lambda>(l, escape, b, bcount). length (stream l))")
     (auto simp: nextRune_def split: list.splits if_splits)

declare readBracesStringLoop.simps [simp del]

definition readBracesString :: "Lexer \<Rightarrow> string \<times> Lexer" where
  "readBracesString l = readBracesStringLoop l False [] 1"

definition newToken :: "Lexer \<Rightarrow> TokenType \<Rightarrow> string \<Rightarrow> Token" where
  "newToken l t s = \<lparr>Type = t, Literal = s, tokLineno = lineno l, tokColno = colno l\<rparr>"

text \<open>\<open>NextToken\<close> returns a token, or \<open>None\<close> with the lexer's error (a string or an
  identifier cut off by the end of the input).\<close>

definition stringToken :: "string \<times> Lexer \<Rightarrow> Token option \<times> Lexer" where
  "stringToken r = (case r of (s, l') \<Rightarrow> if err l' then (None, l') else (Some (newToken l' STRING s), l'))"

definition NextToken :: "bool \<Rightarrow> Lexer \<Rightarrow> Token option \<times> Lexer" where
  "NextToken braceStrings l0 =
     (let l = skipWhitespace l0 in
      if err l then (Some EOFToken, l)
      else if ch l = CHR ''@'' then (Some (newToken l AT ''@''), snd (nextRune l))
      else if ch l = CHR '','' then (Some (newToken l COMMA '',''), snd (nextRune l))
      else if ch l = CHR ''}'' then (Some (newToken l RBRACE ''}''), snd (nextRune l))
      else if ch l = CHR '')'' then (Some (newToken l RBRACE '')''), snd (nextRune l))
      else if ch l = CHR ''='' then (Some (newToken l EQUALS ''=''), snd (nextRune l))
      else if ch l = CHR ''#'' then (Some (newToken l HASH ''#''), snd (nextRune l))
      else if ch l = CHR ''{'' then
        (if \<not> braceStrings then (Some (newToken l LBRACE ''{''), snd (nextRune l))
         else stringToken (readBracesString l))
      else if ch l = CHR ''('' then (Some (newToken l LBRACE ''(''), snd (nextRune l))
      else if ch l = CHR 0x22 then stringToken (readQuoteString l)
      else (case readIdent l of
              (s, l') \<Rightarrow> if err l' then (None, l') else (Some (newToken l' IDENT s), l')))"

section \<open>Parser\<close>

definition Booklet :: EntryKind where "Booklet = ''booklet''"
definition InBook :: EntryKind where "InBook = ''inbook''"
definition InCollection :: EntryKind where "InCollection = ''incollection''"
definition InProceedings :: EntryKind where "InProceedings = ''inproceedings''"
definition Manual :: EntryKind where "Manual = ''manual''"
definition MastersThesis :: EntryKind where "MastersThesis = ''mastersthesis''"
definition Misc :: EntryKind where "Misc = ''misc''"
definition PhdThesis :: EntryKind where "PhdThesis = ''phdthesis''"
definition Proceedings :: EntryKind where "Proceedings = ''proceedings''"
definition TechReport :: EntryKind where "TechReport = ''techreport''"
definition Unpublished :: EntryKind where "Unpublished = ''unpublished''"

definition identToKind :: "string \<rightharpoonup> EntryKind" where
  "identToKind = map_of
     [(''other'', Other), (''string'', StringKind), (''preamble'', PreambleKind),
      (''article'', Article), (''book'', Book), (''inbook'', InBook),
      (''incollection'', InCollection), (''inproceedings'', InProceedings),
      (''manual'', Manual), (''mastersthesis'', MastersThesis), (''misc'', Misc),
      (''phdthesis'', PhdThesis), (''proceedings'', Proceedings),
      (''techreport'', TechReport), (''unpublished'', Unpublished)]"

definition toEntryKind :: "string \<Rightarrow> EntryKind" where
  "toEntryKind s = (case identToKind (ToLower s) of Some k \<Rightarrow> k | None \<Rightarrow> Other)"

text \<open>\<open>strconv.Atoi\<close>: an optional sign and decimal digits, within 64 bits.\<close>

definition digitRunes :: string where
  "digitRunes = ''0123456789''"

fun digitValue :: "string \<Rightarrow> char \<Rightarrow> nat" where
  "digitValue [] c = 0"
| "digitValue (d # ds) c = (if c = d then 0 else Suc (digitValue ds c))"

definition decValue :: "string \<Rightarrow> int" where
  "decValue ds = foldl (\<lambda>n c. n * 10 + int (digitValue digitRunes c)) 0 ds"

definition Atoi :: "string \<Rightarrow> int option" where
  "Atoi s =
     (let neg = (s \<noteq> [] \<and> hd s = CHR ''-'');
          ds = (if s \<noteq> [] \<and> (hd s = CHR ''-'' \<or> hd s = CHR ''+'') then tl s else s) in
      if ds = [] \<or> \<not> list_all (\<lambda>c. c \<in> set digitRunes) ds then None
      else (let v = (if neg then - decValue ds else decValue ds) in
            if v < - (2 ^ 63) \<or> v > 2 ^ 63 - 1 then None else Some v))"

record ParserError =
  lexErr :: bool
  tok :: Token
  msg :: string

text \<open>
  The parser state. \<open>NewParser\<close> below makes the two tokens; the functions of the parser
  read \<open>curToken\<close> and \<open>peekToken\<close> only after \<open>ParseBibTeX\<close> has found them not nil.
\<close>

record Parser =
  lex :: Lexer
  errors :: "ParserError list"
  curToken :: Token
  peekToken :: Token
  bracesAsString :: bool

definition addError :: "string \<Rightarrow> Parser \<Rightarrow> Parser" where
  "addError m p = p\<lparr>errors := errors p @ [\<lparr>lexErr = err (lex p), tok = peekToken p, msg = m\<rparr>]\<rparr>"

definition peekError :: "TokenType \<Rightarrow> Parser \<Rightarrow> Parser" where
  "peekError expected p =
     addError (''expected '' @ expected @ '', got '' @ Type (peekToken p) @ '' instead'') p"

text \<open>\<open>advanceTokens\<close> leaves the tokens alone when the lexer returns an error.\<close>

definition advanceTokens :: "Parser \<Rightarrow> Parser" where
  "advanceTokens p =
     (case NextToken (bracesAsString p) (lex p) of
        (None, l') \<Rightarrow> p\<lparr>lex := l'\<rparr>
      | (Some t, l') \<Rightarrow> p\<lparr>lex := l', curToken := peekToken p, peekToken := t\<rparr>)"

definition curTokenIs :: "Parser \<Rightarrow> TokenType \<Rightarrow> bool" where
  "curTokenIs p t = (Type (curToken p) = t)"

definition peekTokenIs :: "Parser \<Rightarrow> TokenType \<Rightarrow> bool" where
  "peekTokenIs p t = (Type (peekToken p) = t)"

definition expectPeek :: "TokenType \<Rightarrow> Parser \<Rightarrow> bool \<times> Parser" where
  "expectPeek t p = (if peekTokenIs p t then (True, advanceTokens p) else (False, peekError t p))"

text \<open>\<open>readTagValue\<close>: the entry is returned with the pair stored by
  \<open>entry.Fields[tag] = v\<close>, which replaces the value of a tag that is there already.\<close>

definition readTagValue :: "Entry \<Rightarrow> Parser \<Rightarrow> bool \<times> Entry \<times> Parser" where
  "readTagValue entry p =
     (let tag = ToLower (Literal (curToken p)) in
      case expectPeek EQUALS p of
        (False, p1) \<Rightarrow> (False, entry, p1)
      | (True, p1) \<Rightarrow>
          if peekTokenIs p1 IDENT then
            (let p2 = advanceTokens p1;
                 v = (case Atoi (Literal (curToken p2)) of
                        Some i \<Rightarrow> \<lparr>T = NumberType, S = [], I = i\<rparr>
                      | None \<Rightarrow> \<lparr>T = SymbolType, S = Literal (curToken p2), I = 0\<rparr>)
             in (True, entry\<lparr>Fields := AList.update tag v (Fields entry)\<rparr>, p2))
          else if peekTokenIs p1 STRING then
            (let p2 = advanceTokens p1;
                 v = \<lparr>T = StringType, S = Literal (curToken p2), I = 0\<rparr>
             in (True, entry\<lparr>Fields := AList.update tag v (Fields entry)\<rparr>, p2))
          else (False, entry, peekError STRING p1))"

definition newEntry :: Entry where
  "newEntry = \<lparr>Kind = [], EntryString = [], Key = [], Fields = [], AuthorList = [], LineNo = 0\<rparr>"

definition parsePreamble :: "Parser \<Rightarrow> Entry option \<times> Parser" where
  "parsePreamble p0 =
     (let p = p0\<lparr>bracesAsString := True\<rparr>;
          entry = newEntry\<lparr>Kind := PreambleKind, EntryString := Literal (curToken p)\<rparr> in
      case expectPeek IDENT p of
        (False, p1) \<Rightarrow> (None, p1)
      | (True, p1) \<Rightarrow>
          (case expectPeek STRING p1 of
             (False, p2) \<Rightarrow> (None, p2)
           | (True, p2) \<Rightarrow>
               (Some (entry\<lparr>Key := Literal (curToken p2)\<rparr>), p2\<lparr>bracesAsString := False\<rparr>)))"

text \<open>
  The loops of the parser end because every token uses up input. \<open>lexMeasure\<close> counts
  what the lexer can still do, the unread runes and one more until the end of the input
  is recorded; \<open>parserMeasure\<close> adds the two tokens the parser holds while they are not
  \<open>EOF\<close>. The lemmas up to the loops show that no function of the lexer or the parser
  raises the measure, and which of them lower it.
\<close>

definition lexMeasure :: "Lexer \<Rightarrow> nat" where
  "lexMeasure l = length (stream l) + (if err l then 0 else 1)"

definition parserMeasure :: "Parser \<Rightarrow> nat" where
  "parserMeasure p = 3 * lexMeasure (lex p) + 2 * (if Type (peekToken p) = EOF then 0 else 1)
                     + (if Type (curToken p) = EOF then 0 else 1)"

lemma nextRune_measure:
  "lexMeasure (snd (nextRune l)) \<le> lexMeasure l \<and>
   (\<not> err l \<or> fst (nextRune l) \<longrightarrow> lexMeasure (snd (nextRune l)) < lexMeasure l)"
  by (cases "stream l") (auto simp: nextRune_def lexMeasure_def)

lemma nextRune_True: "nextRune l = (True, l') \<Longrightarrow> lexMeasure l' < lexMeasure l"
  using nextRune_measure[of l] by simp

lemma nextRune_False: "nextRune l = (False, l') \<Longrightarrow>
    lexMeasure l' \<le> lexMeasure l \<and> (\<not> err l \<longrightarrow> lexMeasure l' < lexMeasure l)"
  using nextRune_measure[of l] by simp

lemma skipWhitespace_measure: "lexMeasure (skipWhitespace l) \<le> lexMeasure l"
proof (induction l rule: skipWhitespace.induct)
  case (1 l)
  show ?case
  proof (cases "IsSpace (ch l)")
    case False
    then show ?thesis by (simp add: skipWhitespace.simps[of l])
  next
    case True
    obtain ok l' where n: "nextRune l = (ok, l')" by (cases "nextRune l")
    show ?thesis
    proof (cases ok)
      case True
      with n \<open>IsSpace (ch l)\<close> have "skipWhitespace l = skipWhitespace l'"
        by (simp add: skipWhitespace.simps[of l])
      moreover have "lexMeasure (skipWhitespace l') \<le> lexMeasure l'"
        using "1.IH" n True \<open>IsSpace (ch l)\<close> by simp
      ultimately show ?thesis using nextRune_True[of l l'] n True by simp
    next
      case False
      with n \<open>IsSpace (ch l)\<close> have "skipWhitespace l = l'"
        by (simp add: skipWhitespace.simps[of l])
      then show ?thesis using nextRune_False[of l l'] n False by simp
    qed
  qed
qed

lemma readQuoteStringLoop_measure:
  "lexMeasure (snd (readQuoteStringLoop l e b)) \<le> lexMeasure l \<and>
   (\<not> err l \<longrightarrow> lexMeasure (snd (readQuoteStringLoop l e b)) < lexMeasure l)"
proof (induction l e b rule: readQuoteStringLoop.induct)
  case (1 l escape b)
  obtain ok l' where n: "nextRune l = (ok, l')" by (cases "nextRune l")
  show ?case
  proof (cases ok)
    case False
    then have "readQuoteStringLoop l escape b = ([], l')"
      using n by (simp add: readQuoteStringLoop.simps[of l])
    then show ?thesis using nextRune_False[of l l'] n False by simp
  next
    case True
    have lt: "lexMeasure l' < lexMeasure l" using nextRune_True n True by simp
    show ?thesis
    proof (cases "ch l' = CHR 0x22 \<and> \<not> escape")
      case q: True
      then have "readQuoteStringLoop l escape b = (b, snd (nextRune l'))"
        using n True by (simp add: readQuoteStringLoop.simps[of l])
      then show ?thesis using nextRune_measure[of l'] lt by simp
    next
      case nq: False
      then have eq: "readQuoteStringLoop l escape b =
          readQuoteStringLoop l' (\<not> escape \<and> ch l' = CHR 0x5C) (b @ [ch l'])"
        using n True by (auto simp add: readQuoteStringLoop.simps[of l])
      have "lexMeasure (snd (readQuoteStringLoop l' (\<not> escape \<and> ch l' = CHR 0x5C) (b @ [ch l']))) \<le> lexMeasure l'"
        using "1.IH"[OF n[symmetric]] True nq by auto
      then show ?thesis using eq lt by simp
    qed
  qed
qed

lemma readIdentLoop_measure:
  "lexMeasure (snd (readIdentLoop l b)) \<le> lexMeasure l \<and>
   (\<not> err l \<longrightarrow> lexMeasure (snd (readIdentLoop l b)) < lexMeasure l)"
proof (induction l b rule: readIdentLoop.induct)
  case (1 l b)
  obtain ok l' where n: "nextRune l = (ok, l')" by (cases "nextRune l")
  show ?case
  proof (cases ok)
    case False
    then have "readIdentLoop l b = ([], l')"
      using n by (simp add: readIdentLoop.simps[of l])
    then show ?thesis using nextRune_False[of l l'] n False by simp
  next
    case True
    have lt: "lexMeasure l' < lexMeasure l" using nextRune_True n True by simp
    show ?thesis
    proof (cases "identStop (ch l')")
      case q: True
      then have "readIdentLoop l b = (b, l')"
        using n True by (simp add: readIdentLoop.simps[of l])
      then show ?thesis using lt by simp
    next
      case nq: False
      then have eq: "readIdentLoop l b = readIdentLoop l' (b @ [ch l'])"
        using n True by (simp add: readIdentLoop.simps[of l])
      have "lexMeasure (snd (readIdentLoop l' (b @ [ch l']))) \<le> lexMeasure l'"
        using "1.IH"[OF n[symmetric]] True nq by auto
      then show ?thesis using eq lt by simp
    qed
  qed
qed

lemma readBracesStringLoop_measure:
  "lexMeasure (snd (readBracesStringLoop l e b c)) \<le> lexMeasure l \<and>
   (\<not> err l \<longrightarrow> lexMeasure (snd (readBracesStringLoop l e b c)) < lexMeasure l)"
proof (induction l e b c rule: readBracesStringLoop.induct)
  case (1 l escape b bcount)
  obtain ok l' where n: "nextRune l = (ok, l')" by (cases "nextRune l")
  show ?case
  proof (cases ok)
    case False
    then have "readBracesStringLoop l escape b bcount = ([], l')"
      using n by (simp add: readBracesStringLoop.simps[of l])
    then show ?thesis using nextRune_False[of l l'] n False by simp
  next
    case True
    have lt: "lexMeasure l' < lexMeasure l" using nextRune_True n True by simp
    define bc where "bc = (if ch l' = CHR ''{'' \<and> \<not> escape then bcount + 1
                          else if ch l' = CHR ''}'' \<and> \<not> escape then bcount - 1
                          else bcount)"
    show ?thesis
    proof (cases "bc = 0")
      case q: True
      then have "readBracesStringLoop l escape b bcount = (b, snd (nextRune l'))"
        using n True by (simp add: readBracesStringLoop.simps[of l] bc_def Let_def)
      then show ?thesis using nextRune_measure[of l'] lt by simp
    next
      case nq: False
      then have eq: "readBracesStringLoop l escape b bcount =
          readBracesStringLoop l' (\<not> escape \<and> ch l' = CHR 0x5C) (b @ [ch l']) bc"
        using n True by (simp add: readBracesStringLoop.simps[of l] bc_def Let_def)
      have "lexMeasure (snd (readBracesStringLoop l' (\<not> escape \<and> ch l' = CHR 0x5C) (b @ [ch l']) bc)) \<le> lexMeasure l'"
        using "1.IH"[OF n[symmetric] _ bc_def] True nq by auto
      then show ?thesis using eq lt by simp
    qed
  qed
qed

lemma stringToken_measure:
  assumes "lexMeasure (snd r) < m"
  shows "lexMeasure (snd (stringToken r)) < m"
  using assms by (cases r) (simp add: stringToken_def)

lemma NextToken_measure:
  "lexMeasure (snd (NextToken bs l)) \<le> lexMeasure l \<and>
   (fst (NextToken bs l) \<noteq> Some EOFToken \<longrightarrow> lexMeasure (snd (NextToken bs l)) < lexMeasure l)"
proof -
  define l1 where "l1 = skipWhitespace l"
  have le1: "lexMeasure l1 \<le> lexMeasure l" unfolding l1_def by (rule skipWhitespace_measure)
  show ?thesis
  proof (cases "err l1")
    case True
    then have "NextToken bs l = (Some EOFToken, l1)" by (simp add: NextToken_def l1_def[symmetric])
    then show ?thesis using le1 by simp
  next
    case False
    have nr: "lexMeasure (snd (nextRune l1)) < lexMeasure l" using nextRune_measure[of l1] False le1 by simp
    have rb: "lexMeasure (snd (stringToken (readBracesString l1))) < lexMeasure l"
      using readBracesStringLoop_measure[of l1 False "[]" 1] False le1
      by (intro stringToken_measure) (simp add: readBracesString_def)
    have rq: "lexMeasure (snd (stringToken (readQuoteString l1))) < lexMeasure l"
      using readQuoteStringLoop_measure[of l1 False "[]"] False le1
      by (intro stringToken_measure) (simp add: readQuoteString_def)
    have ri: "lexMeasure (snd (readIdent l1)) < lexMeasure l"
      using readIdentLoop_measure[of l1 "[ch l1]"] False le1 by (simp add: readIdent_def)
    have "lexMeasure (snd (NextToken bs l)) < lexMeasure l"
      using False nr rb rq ri
      by (auto simp: NextToken_def l1_def[symmetric] split: prod.splits)
    then show ?thesis by simp
  qed
qed

lemma EOFToken_Type: "Type EOFToken = EOF"
  by (simp add: EOFToken_def)

lemma advanceTokens_measure:
  "parserMeasure (advanceTokens p) \<le> parserMeasure p \<and>
   (Type (peekToken p) \<noteq> EOF \<or> Type (curToken p) \<noteq> EOF \<longrightarrow>
      parserMeasure (advanceTokens p) < parserMeasure p)"
proof -
  obtain t l' where n: "NextToken (bracesAsString p) (lex p) = (t, l')"
    by (cases "NextToken (bracesAsString p) (lex p)")
  have le: "lexMeasure l' \<le> lexMeasure (lex p)"
    and lt: "t \<noteq> Some EOFToken \<Longrightarrow> lexMeasure l' < lexMeasure (lex p)"
    using NextToken_measure[of "bracesAsString p" "lex p"] n by auto
  show ?thesis
  proof (cases t)
    case None
    then have "advanceTokens p = p\<lparr>lex := l'\<rparr>" using n by (simp add: advanceTokens_def)
    then show ?thesis using lt None by (simp add: parserMeasure_def)
  next
    case (Some tk)
    then have a: "advanceTokens p = p\<lparr>lex := l', curToken := peekToken p, peekToken := tk\<rparr>"
      using n by (simp add: advanceTokens_def)
    show ?thesis
    proof (cases "tk = EOFToken")
      case True
      then show ?thesis using a le by (simp add: parserMeasure_def EOFToken_Type)
    next
      case False
      then have "lexMeasure l' < lexMeasure (lex p)" using lt Some by simp
      then show ?thesis using a by (simp add: parserMeasure_def)
    qed
  qed
qed

definition noGrow :: "Parser \<Rightarrow> Parser \<Rightarrow> bool" where
  "noGrow p p' = (parserMeasure p' \<le> parserMeasure p \<and>
     (Type (curToken p) \<noteq> EOF \<and> Type (curToken p') = EOF \<longrightarrow> parserMeasure p' < parserMeasure p))"

lemma noGrow_refl: "noGrow p p"
  by (simp add: noGrow_def)

lemma noGrow_trans: "noGrow p p' \<Longrightarrow> noGrow p' p'' \<Longrightarrow> noGrow p p''"
  unfolding noGrow_def by (cases "Type (curToken p') = EOF") auto

lemma noGrow_advance: "noGrow p (advanceTokens p)"
  using advanceTokens_measure[of p] by (auto simp: noGrow_def)

lemma noGrow_addError: "noGrow p (addError m p)"
  by (simp add: noGrow_def addError_def parserMeasure_def)

lemma noGrow_peekError: "noGrow p (peekError t p)"
  by (simp add: peekError_def noGrow_addError)

lemma noGrow_expectPeek: "noGrow p (snd (expectPeek t p))"
  by (simp add: expectPeek_def noGrow_advance noGrow_peekError)

lemma expectPeek_strict:
  "expectPeek t p = (True, p') \<Longrightarrow> t \<noteq> EOF \<Longrightarrow> parserMeasure p' < parserMeasure p"
  using advanceTokens_measure[of p]
  by (auto simp: expectPeek_def peekTokenIs_def split: if_splits)

lemma noGrow_readTagValue: "noGrow p (snd (snd (readTagValue entry p)))"
proof -
  obtain ok p1 where e: "expectPeek EQUALS p = (ok, p1)" by (cases "expectPeek EQUALS p")
  have g1: "noGrow p p1" using noGrow_expectPeek[of p EQUALS] e by simp
  have g2: "noGrow p1 (advanceTokens p1)" by (rule noGrow_advance)
  have g3: "noGrow p1 (peekError STRING p1)" by (rule noGrow_peekError)
  show ?thesis
    using e g1 noGrow_trans[OF g1 g2] noGrow_trans[OF g1 g3]
    by (cases ok) (auto simp: readTagValue_def Let_def)
qed

lemma measure_le: "noGrow p p' \<Longrightarrow> parserMeasure p' \<le> parserMeasure p"
  by (simp add: noGrow_def)

text \<open>The loop of \<open>parseEntry\<close> over the tag/value pairs.\<close>

function parseEntryLoop :: "Entry \<Rightarrow> Parser \<Rightarrow> Entry option \<times> Parser" where
  "parseEntryLoop entry p =
     (if peekTokenIs p RBRACE then (Some entry, p)
      else (case expectPeek IDENT p of
              (False, p1) \<Rightarrow> (None, p1)
            | (True, p1) \<Rightarrow>
                (case readTagValue entry p1 of
                   (False, entry2, p2) \<Rightarrow> (None, p2)
                 | (True, entry2, p2) \<Rightarrow>
                     parseEntryLoop entry2
                       (if peekTokenIs p2 COMMA then advanceTokens p2 else p2))))"
  by pat_completeness auto
termination
proof (relation "measure (\<lambda>(entry, p). parserMeasure p)", goal_cases)
  case 1
  show ?case by simp
next
  case (2 entry p x1 p1 x2 x3 entry2 p2)
  have ne: "IDENT \<noteq> EOF" by (simp add: TokenType_defs)
  have s1: "parserMeasure p1 < parserMeasure p"
    using expectPeek_strict[of IDENT p p1] 2 ne by simp
  have "p2 = snd (snd (readTagValue entry p1))" using 2 by (metis snd_conv)
  then have s2: "parserMeasure p2 \<le> parserMeasure p1"
    using noGrow_readTagValue[of p1 entry] measure_le by simp
  have s3: "parserMeasure (advanceTokens p2) \<le> parserMeasure p2"
    using advanceTokens_measure[of p2] by simp
  show ?case using s1 s2 s3 by simp
qed

declare parseEntryLoop.simps [simp del]

lemma noGrow_braces: "noGrow p p' \<Longrightarrow> noGrow (p\<lparr>bracesAsString := b\<rparr>) p'"
  "noGrow p p' \<Longrightarrow> noGrow p (p'\<lparr>bracesAsString := b\<rparr>)"
  by (simp_all add: noGrow_def parserMeasure_def)

lemma noGrow_parseEntryLoop: "noGrow p (snd (parseEntryLoop entry p))"
proof (induction entry p rule: parseEntryLoop.induct)
  case (1 entry p)
  show ?case
  proof (cases "peekTokenIs p RBRACE")
    case True
    then show ?thesis by (simp add: parseEntryLoop.simps[of entry p] noGrow_refl)
  next
    case False
    obtain ok1 p1 where e: "expectPeek IDENT p = (ok1, p1)" by (cases "expectPeek IDENT p")
    have g1: "noGrow p p1" using noGrow_expectPeek[of p IDENT] e by simp
    show ?thesis
    proof (cases ok1)
      case f1: False
      then show ?thesis using False e g1 by (simp add: parseEntryLoop.simps[of entry p])
    next
      case t1: True
      obtain ok2 entry2 p2 where r: "readTagValue entry p1 = (ok2, entry2, p2)"
        by (cases "readTagValue entry p1") auto
      have g2: "noGrow p1 p2" using noGrow_readTagValue[of p1 entry] r by simp
      have g12: "noGrow p p2" by (rule noGrow_trans[OF g1 g2])
      show ?thesis
      proof (cases ok2)
        case f2: False
        then show ?thesis using False e t1 r g12 by (simp add: parseEntryLoop.simps[of entry p])
      next
        case t2: True
        define p3 where "p3 = (if peekTokenIs p2 COMMA then advanceTokens p2 else p2)"
        have g3: "noGrow p2 p3" by (simp add: p3_def noGrow_advance noGrow_refl)
        have eq: "parseEntryLoop entry p = parseEntryLoop entry2 p3"
          using False e t1 r t2 by (simp add: parseEntryLoop.simps[of entry p] p3_def)
        have IH: "noGrow p3 (snd (parseEntryLoop entry2 p3))"
          using "1.IH"[OF False e[symmetric] _ r[symmetric]] t1 t2 by (simp add: p3_def)
        show ?thesis
          unfolding eq using noGrow_trans[OF noGrow_trans[OF g12 g3] IH] .
      qed
    qed
  qed
qed

text \<open>The part of \<open>parseEntry\<close> after \<open>p.bracesAsString = true\<close>: the loop, and the
  deferred reset of the flag at every return from there on.\<close>

definition parseEntryPairs :: "Entry \<Rightarrow> Parser \<Rightarrow> Entry option \<times> Parser" where
  "parseEntryPairs entry p =
     (case parseEntryLoop entry (p\<lparr>bracesAsString := True\<rparr>) of
        (r, p') \<Rightarrow> (r, p'\<lparr>bracesAsString := False\<rparr>))"

definition parseEntry :: "Parser \<Rightarrow> Entry option \<times> Parser" where
  "parseEntry p =
     (if peekTokenIs p IDENT \<and> toEntryKind (Literal (peekToken p)) = PreambleKind
      then parsePreamble p
      else
        (case expectPeek IDENT p of
           (False, p1) \<Rightarrow> (None, p1)
         | (True, p1) \<Rightarrow>
             (let entry = newEntry\<lparr>Kind := toEntryKind (Literal (curToken p1)),
                                    EntryString := Literal (curToken p1)\<rparr> in
              case expectPeek LBRACE p1 of
                (False, p2) \<Rightarrow> (None, p2)
              | (True, p2) \<Rightarrow>
                  (if Kind entry \<noteq> StringKind then
                     (case expectPeek IDENT p2 of
                        (False, p3) \<Rightarrow> (None, p3)
                      | (True, p3) \<Rightarrow>
                          (case expectPeek COMMA p3 of
                             (False, p4) \<Rightarrow> (None, p4)
                           | (True, p4) \<Rightarrow>
                               parseEntryPairs (entry\<lparr>Key := Literal (curToken p3)\<rparr>) p4))
                   else parseEntryPairs entry p2))))"

lemma noGrow_parseEntryPairs: "noGrow p (snd (parseEntryPairs e p))"
proof -
  have a: "noGrow p (p\<lparr>bracesAsString := True\<rparr>)" by (rule noGrow_braces(2)[OF noGrow_refl])
  have b: "noGrow (p\<lparr>bracesAsString := True\<rparr>) (snd (parseEntryLoop e (p\<lparr>bracesAsString := True\<rparr>)))"
    by (rule noGrow_parseEntryLoop)
  show ?thesis
    using noGrow_braces(2)[OF noGrow_trans[OF a b], of False]
    by (cases "parseEntryLoop e (p\<lparr>bracesAsString := True\<rparr>)") (simp add: parseEntryPairs_def)
qed

lemma noGrow_parsePreamble: "noGrow p (snd (parsePreamble p))"
proof -
  let ?p = "p\<lparr>bracesAsString := True\<rparr>"
  obtain ok1 p1 where e1: "expectPeek IDENT ?p = (ok1, p1)" by (cases "expectPeek IDENT ?p")
  obtain ok2 p2 where e2: "expectPeek STRING p1 = (ok2, p2)" by (cases "expectPeek STRING p1")
  have g0: "noGrow p ?p" by (simp add: noGrow_def parserMeasure_def)
  have g1: "noGrow p p1" using noGrow_trans[OF g0] noGrow_expectPeek[of ?p IDENT] e1 by simp
  have g2: "noGrow p p2" using noGrow_trans[OF g1] noGrow_expectPeek[of p1 STRING] e2 by simp
  show ?thesis
    using e1 e2 g1 g2 noGrow_braces(2)[OF g2]
    by (cases ok1; cases ok2) (simp_all add: parsePreamble_def Let_def)
qed

lemma noGrow_parseEntry: "noGrow p (snd (parseEntry p))"
proof (cases "peekTokenIs p IDENT \<and> toEntryKind (Literal (peekToken p)) = PreambleKind")
  case True
  then show ?thesis using noGrow_parsePreamble[of p] by (simp add: parseEntry_def)
next
  case False
  obtain ok1 p1 where e1: "expectPeek IDENT p = (ok1, p1)" by (cases "expectPeek IDENT p")
  obtain ok2 p2 where e2: "expectPeek LBRACE p1 = (ok2, p2)" by (cases "expectPeek LBRACE p1")
  obtain ok3 p3 where e3: "expectPeek IDENT p2 = (ok3, p3)" by (cases "expectPeek IDENT p2")
  obtain ok4 p4 where e4: "expectPeek COMMA p3 = (ok4, p4)" by (cases "expectPeek COMMA p3")
  have g1: "noGrow p p1" using noGrow_expectPeek[of p IDENT] e1 by simp
  have g2: "noGrow p p2" using noGrow_trans[OF g1] noGrow_expectPeek[of p1 LBRACE] e2 by simp
  have g3: "noGrow p p3" using noGrow_trans[OF g2] noGrow_expectPeek[of p2 IDENT] e3 by simp
  have g4: "noGrow p p4" using noGrow_trans[OF g3] noGrow_expectPeek[of p3 COMMA] e4 by simp
  have b2: "\<And>e. noGrow p (snd (parseEntryPairs e p2))"
    by (rule noGrow_trans[OF g2 noGrow_parseEntryPairs])
  have b4: "\<And>e. noGrow p (snd (parseEntryPairs e p4))"
    by (rule noGrow_trans[OF g4 noGrow_parseEntryPairs])
  show ?thesis
    using False e1 e2 e3 e4 g1 g2 g3 g4 b2 b4
    by (cases ok1; cases ok2; cases ok3; cases ok4) (auto simp: parseEntry_def Let_def)
qed

text \<open>The inner \<open>switch\<close> of \<open>ParseBibTeX\<close> on the kind of a parsed entry.\<close>

definition storeEntry :: "Entry \<Rightarrow> Database \<times> Parser \<Rightarrow> Database \<times> Parser" where
  "storeEntry entry dp =
     (case dp of (database, p) \<Rightarrow>
        if Kind entry = StringKind then
          (if length (Fields entry) \<noteq> 1
           then (database, addError ''Wrong number of string definitions in @string'' p)
           else (database\<lparr>Symbols := fold (\<lambda>(k, v) m. m(k \<mapsto> v)) (Fields entry) (Symbols database)\<rparr>, p))
        else if Kind entry = PreambleKind then
          (database\<lparr>Preamble := Preamble database @ [Key entry]\<rparr>, p)
        else (database\<lparr>Pubs := Pubs database @ [entry]\<rparr>, p))"

lemma noGrow_storeEntry: "noGrow p (snd (storeEntry e (db, p)))"
  by (simp add: storeEntry_def noGrow_addError noGrow_refl)

text \<open>One turn of the loop of \<open>ParseBibTeX\<close>, before its \<open>advanceTokens\<close>.\<close>

definition parseUnit :: "Database \<times> Parser \<Rightarrow> Database \<times> Parser" where
  "parseUnit dp =
     (case dp of (database, p) \<Rightarrow>
        if Type (curToken p) = AT then
          (case parseEntry p of
             (None, p') \<Rightarrow> (database, p')
           | (Some entry, p') \<Rightarrow> storeEntry entry (database, p'))
        else (database, p))"

lemma noGrow_parseUnit: "noGrow p (snd (parseUnit (db, p)))"
proof (cases "Type (curToken p) = AT")
  case False
  then show ?thesis by (simp add: parseUnit_def noGrow_refl)
next
  case True
  obtain r p' where pe: "parseEntry p = (r, p')" by (cases "parseEntry p")
  have g: "noGrow p p'" using noGrow_parseEntry[of p] pe by simp
  show ?thesis
    using True pe g noGrow_trans[OF g noGrow_storeEntry]
    by (cases r) (simp_all add: parseUnit_def)
qed

function ParseBibTeXLoop :: "Database \<times> Parser \<Rightarrow> Database \<times> Parser" where
  "ParseBibTeXLoop dp =
     (if curTokenIs (snd dp) EOF then dp
      else (case parseUnit dp of (database, p) \<Rightarrow> ParseBibTeXLoop (database, advanceTokens p)))"
  by pat_completeness auto
termination
proof (relation "measure (\<lambda>dp. parserMeasure (snd dp))", goal_cases)
  case 1
  show ?case by simp
next
  case (2 dp database p)
  obtain db0 p0 where dp: "dp = (db0, p0)" by (cases dp)
  have cur: "Type (curToken p0) \<noteq> EOF" using 2 dp by (simp add: curTokenIs_def)
  have "p = snd (parseUnit (db0, p0))" using 2 dp by (metis snd_conv)
  then have g: "noGrow p0 p" using noGrow_parseUnit[of p0 db0] by simp
  have "parserMeasure (advanceTokens p) < parserMeasure p0"
  proof (cases "Type (curToken p) = EOF")
    case True
    then have "parserMeasure p < parserMeasure p0" using g cur by (simp add: noGrow_def)
    then show ?thesis using advanceTokens_measure[of p] by simp
  next
    case False
    then have "parserMeasure (advanceTokens p) < parserMeasure p"
      using advanceTokens_measure[of p] by simp
    then show ?thesis using g by (simp add: noGrow_def)
  qed
  then show ?case using dp by simp
qed

declare ParseBibTeXLoop.simps [simp del]

definition NewDatabase :: Database where
  "NewDatabase = \<lparr>Pubs = [], Symbols = Map.empty, Preamble = [], Errors = []\<rparr>"

text \<open>
  \<open>NewParser\<close> starts with both tokens nil and calls \<open>advanceTokens\<close> twice; a call whose
  \<open>NextToken\<close> fails changes neither token. The result is the two tokens, nil or not, and
  the lexer.
\<close>

definition NewParser :: "string \<Rightarrow> Token option \<times> Token option \<times> Lexer" where
  "NewParser f =
     (case NextToken False (NewLexer f) of
        (t1, l1) \<Rightarrow>
          (case NextToken False l1 of
             (t2, l2) \<Rightarrow>
               (let peek1 = t1;
                    cur2 = (case t2 of None \<Rightarrow> None | Some _ \<Rightarrow> peek1);
                    peek2 = (case t2 of None \<Rightarrow> peek1 | Some t \<Rightarrow> Some t)
                in (cur2, peek2, l2))))"

text \<open>
  \<open>ParseBibTeX\<close> on the parser that \<open>NewParser\<close> makes for the text \<open>f\<close>. Its first test
  reads \<open>p.curToken.Type\<close>, which panics when \<open>curToken\<close> is nil; after it both tokens
  are there. The result is the database and the parser, with its syntax errors.
\<close>

definition ParseBibTeX :: "string \<Rightarrow> panic + (Database \<times> Parser)" where
  "ParseBibTeX f =
     (case NewParser f of
        (Some c, Some pk, l) \<Rightarrow>
          Inr (ParseBibTeXLoop (NewDatabase,
                 \<lparr>lex = l, errors = [], curToken = c, peekToken = pk, bracesAsString = False\<rparr>))
      | _ \<Rightarrow> Inl NilDereference)"

text \<open>
  What a caller reads from the result of \<open>ParseBibTeX\<close>: the publications, the value bound
  to one symbol, and the messages of the syntax errors (\<open>None\<close> when the parser panicked).
\<close>

definition parsedPubs :: "panic + (Database \<times> Parser) \<Rightarrow> Entry list option" where
  "parsedPubs r = (case r of Inl _ \<Rightarrow> None | Inr (db, p) \<Rightarrow> Some (Pubs db))"

definition parsedSymbol :: "panic + (Database \<times> Parser) \<Rightarrow> string \<Rightarrow> Value option option" where
  "parsedSymbol r k = (case r of Inl _ \<Rightarrow> None | Inr (db, p) \<Rightarrow> Some (Symbols db k))"

definition parsedMsgs :: "panic + (Database \<times> Parser) \<Rightarrow> string list option" where
  "parsedMsgs r = (case r of Inl _ \<Rightarrow> None | Inr (db, p) \<Rightarrow> Some (map msg (errors p)))"

text \<open>
  The field list of an entry stands for a Go map when no tag occurs twice in it; the tags
  that \<open>readTagValue\<close> stores are lower-cased.
\<close>

definition lowerKeys :: "Entry \<Rightarrow> bool" where
  "lowerKeys e =
     (distinct (map fst (Fields e)) \<and> list_all (\<lambda>k. ToLower k = k) (map fst (Fields e)))"

text \<open>
  The description of \<open>RemoveExactDups\<close> that the code is compared with: \<open>keyAt\<close> is
  the key of the bin of the entry at position \<open>p\<close>, and \<open>laterDuplicate\<close> says that some
  entry after it, in the same bin, \<open>Equals\<close> it.
\<close>

definition keyAt :: "Entry list \<Rightarrow> nat \<Rightarrow> string" where
  "keyAt pubs p = ToLower (Key (pubs ! p))"

definition laterDuplicate :: "Entry list \<Rightarrow> nat \<Rightarrow> bool" where
  "laterDuplicate pubs p =
     list_ex (\<lambda>q. keyAt pubs q = keyAt pubs p \<and> EntryEquals (pubs ! p) (pubs ! q))
       [Suc p..<length pubs]"

section \<open>Example data\<close>

definition strV :: "string \<Rightarrow> Value" where
  "strV s = \<lparr>T = StringType, S = s, I = 0\<rparr>"

definition numV :: "int \<Rightarrow> Value" where
  "numV i = \<lparr>T = NumberType, S = [], I = i\<rparr>"

definition symV :: "string \<Rightarrow> Value" where
  "symV s = \<lparr>T = SymbolType, S = s, I = 0\<rparr>"

definition emptyDb :: Database where
  "emptyDb = \<lparr>Pubs = [], Symbols = Map.empty, Preamble = [], Errors = []\<rparr>"

text \<open>A cycle of two symbols, \<open>a\<close> bound to \<open>B\<close> and \<open>b\<close> bound to \<open>a\<close>, and a symbol
  bound to a month name.\<close>

definition cycDb :: Database where
  "cycDb = \<lparr>Pubs = [],
            Symbols = [''a'' \<mapsto> symV ''B'', ''b'' \<mapsto> symV ''a'', ''m'' \<mapsto> symV ''Jan''],
            Preamble = [], Errors = []\<rparr>"

text \<open>An article with a title and a year, and two shorter copies of it.\<close>

definition fullEntry :: Entry where
  "fullEntry = \<lparr>Kind = Article, EntryString = ''article'', Key = ''k1'',
     Fields = [(''title'', strV ''T''), (''year'', numV 2020)], AuthorList = [], LineNo = 1\<rparr>"

definition shortEntry1 :: Entry where
  "shortEntry1 = \<lparr>Kind = Article, EntryString = ''article'', Key = ''k2'',
     Fields = [(''title'', strV ''T'')], AuthorList = [], LineNo = 7\<rparr>"

definition shortEntry2 :: Entry where
  "shortEntry2 = \<lparr>Kind = Article, EntryString = ''article'', Key = ''k3'',
     Fields = [(''title'', strV ''T'')], AuthorList = [], LineNo = 12\<rparr>"

definition mergedDb :: Database where
  "mergedDb = \<lparr>Pubs = [fullEntry, shortEntry1, shortEntry2], Symbols = Map.empty,
               Preamble = [], Errors = []\<rparr>"

text \<open>Two articles that differ in the case of type and key and in their line, with a
  book between them; and two articles that differ in their line only.\<close>

definition dupA :: Entry where
  "dupA = \<lparr>Kind = Article, EntryString = ''Article'', Key = ''Moo'',
     Fields = [(''title'', strV ''T'')], AuthorList = [], LineNo = 1\<rparr>"

definition otherE :: Entry where
  "otherE = \<lparr>Kind = Book, EntryString = ''book'', Key = ''x'',
     Fields = [(''title'', strV ''T'')], AuthorList = [], LineNo = 5\<rparr>"

definition dupB :: Entry where
  "dupB = \<lparr>Kind = Article, EntryString = ''article'', Key = ''moo'',
     Fields = [(''title'', strV ''T'')], AuthorList = [], LineNo = 9\<rparr>"

definition dupDb :: Database where
  "dupDb = \<lparr>Pubs = [dupA, otherE, dupB], Symbols = Map.empty, Preamble = [], Errors = []\<rparr>"

definition twinDb :: Database where
  "twinDb = \<lparr>Pubs = [dupB, dupB\<lparr>LineNo := 20\<rparr>], Symbols = Map.empty, Preamble = [], Errors = []\<rparr>"

text \<open>The words of a name whose von part has a capitalised word inside.\<close>

definition vonWords :: "string list" where
  "vonWords = [''von'', ''Moo'', ''de'', ''Berry'']"

text \<open>Two texts for the parser, and the parser that \<open>NewParser\<close> makes for the first one.\<close>

definition twoDefsText :: string where
  "twoDefsText = ''@string{ a = \"x\", b = \"y\" } ''"

definition dupTagText :: string where
  "dupTagText = ''@article{k, title = {A}, Title = {B}} ''"

definition twoDefsParser :: Parser where
  "twoDefsParser =
     \<lparr>lex = \<lparr>stream = '' a = \"x\", b = \"y\" } '', ch = CHR ''{'', err = False,
              lineno = 1, colno = 9\<rparr>,
      errors = [],
      curToken = \<lparr>Type = AT, Literal = ''@'', tokLineno = 1, tokColno = 2\<rparr>,
      peekToken = \<lparr>Type = IDENT, Literal = ''string'', tokLineno = 1, tokColno = 9\<rparr>,
      bracesAsString = False\<rparr>"

definition twoDefsEntry :: Entry where
  "twoDefsEntry =
     \<lparr>Kind = StringKind, EntryString = ''string'', Key = [],
      Fields = [(''a'', strV ''x''), (''b'', strV ''y'')], AuthorList = [], LineNo = 0\<rparr>"

section \<open>Symbol resolution, equality and order of values\<close>

lemmas rune_defs = ToLower_def toLowerRune_def upperRunes_def lowerOfUpperRunes_def
  IsSpace_def spaceRunes_def IsUpper_def IsPunct_def punctRunes_def IsLower_def IsLetter_def

lemma SymbolValueLoop_shift:
  "SymbolValueLoop syms v (i + k) (d + k) = SymbolValueLoop syms v i d"
proof (induction syms v i d rule: SymbolValueLoop.induct)
  case (1 syms symb i depth)
  show ?case
  proof (cases "i < depth \<and> T symb = SymbolType")
    case False
    then show ?thesis by auto
  next
    case True
    show ?thesis
    proof (cases "syms (ToLower (S symb))")
      case None
      with True show ?thesis by (auto split: option.splits)
    next
      case (Some w)
      have "SymbolValueLoop syms w (i + 1 + k) (depth + k) = SymbolValueLoop syms w (i + 1) depth"
        using "1.IH"[OF True Some] .
      with True Some show ?thesis by (simp add: add.commute add.left_commute)
    qed
  qed
qed

lemma SymbolValueLoop_range:
  "SymbolValueLoop syms v i d = v \<or> SymbolValueLoop syms v i d \<in> ran syms \<or>
   (\<exists>m. m \<in> ran predefinedSymbols \<and> SymbolValueLoop syms v i d = \<lparr>T = StringType, S = m, I = 0\<rparr>)"
proof (induction syms v i d rule: SymbolValueLoop.induct)
  case (1 syms symb i depth)
  show ?case
  proof (cases "i < depth \<and> T symb = SymbolType")
    case False
    then show ?thesis by auto
  next
    case True
    show ?thesis
    proof (cases "syms (ToLower (S symb))")
      case None
      with True show ?thesis by (auto split: option.splits simp: ran_def)
    next
      case (Some w)
      have w: "w \<in> ran syms" using Some by (auto simp: ran_def)
      have eq: "SymbolValueLoop syms symb i depth = SymbolValueLoop syms w (i + 1) depth"
        using True Some by simp
      from "1.IH"[OF True Some] w show ?thesis unfolding eq by auto
    qed
  qed
qed

text \<open>
  C3, as the code has it. \<open>SymbolValue\<close> returns a value that is no Symbol unchanged, and
  with a depth bound \<open>d \<le> 0\<close> it returns every value unchanged. With \<open>d > 0\<close> a Symbol
  is looked up by its lower-cased name: bound in the user table to \<open>w\<close>, the result is that
  of \<open>w\<close> with the bound \<open>d - 1\<close> (so at most \<open>d\<close> substitutions are chained, and the value
  reached when the bound runs out is returned); bound only in the month table, the result
  is the String of the month name, with no further lookup; bound nowhere, the Symbol is
  returned unchanged. The function is total, and its result is always the argument, a
  value bound in the user table or the String of a month name; a cycle of definitions
  therefore ends at one of the cycle's values.
\<close>

theorem SymbolValue_resolution:
  "(T v \<noteq> SymbolType \<longrightarrow> SymbolValue db v d = v) \<and>
   (d \<le> 0 \<longrightarrow> SymbolValue db v d = v) \<and>
   (T v = SymbolType \<and> 0 < d \<and> Symbols db (ToLower (S v)) = Some w \<longrightarrow>
      SymbolValue db v d = SymbolValue db w (d - 1)) \<and>
   (T v = SymbolType \<and> 0 < d \<and> Symbols db (ToLower (S v)) = None \<and>
      predefinedSymbols (ToLower (S v)) = Some m \<longrightarrow>
      SymbolValue db v d = \<lparr>T = StringType, S = m, I = 0\<rparr>) \<and>
   (T v = SymbolType \<and> Symbols db (ToLower (S v)) = None \<and>
      predefinedSymbols (ToLower (S v)) = None \<longrightarrow> SymbolValue db v d = v) \<and>
   (SymbolValue db v d = v \<or> SymbolValue db v d \<in> ran (Symbols db) \<or>
      (\<exists>m'. m' \<in> ran predefinedSymbols \<and> SymbolValue db v d = \<lparr>T = StringType, S = m', I = 0\<rparr>))"
proof -
  have shift: "SymbolValueLoop (Symbols db) w 1 d = SymbolValueLoop (Symbols db) w 0 (d - 1)"
    using SymbolValueLoop_shift[of "Symbols db" w 0 1 "d - 1"] by simp
  show ?thesis
    unfolding SymbolValue_def
    using SymbolValueLoop_range[of "Symbols db" v 0 d] shift
    by auto
qed

text \<open>The clauses of \<open>SymbolValue_resolution\<close> at concrete values: a String, the bound 0,
  a bound symbol, a month, an undefined symbol.\<close>

theorem SymbolValue_resolution_witness:
  "T (strV ''x'') \<noteq> SymbolType \<and> SymbolValue cycDb (strV ''x'') 10 = strV ''x'' \<and>
   SymbolValue cycDb (symV ''A'') 0 = symV ''A'' \<and>
   T (symV ''M'') = SymbolType \<and> Symbols cycDb (ToLower (S (symV ''M''))) = Some (symV ''Jan'') \<and>
   SymbolValue cycDb (symV ''M'') 10 = SymbolValue cycDb (symV ''Jan'') (10 - 1) \<and>
   Symbols cycDb (ToLower (S (symV ''Jan''))) = None \<and>
   predefinedSymbols (ToLower (S (symV ''Jan''))) = Some ''January'' \<and>
   SymbolValue cycDb (symV ''Jan'') 9 = \<lparr>T = StringType, S = ''January'', I = 0\<rparr> \<and>
   Symbols cycDb (ToLower (S (symV ''nbt''))) = None \<and>
   predefinedSymbols (ToLower (S (symV ''nbt''))) = None \<and>
   SymbolValue cycDb (symV ''nbt'') 10 = symV ''nbt''"
proof -
  have a: "T (strV ''x'') \<noteq> SymbolType" by (simp add: strV_def)
  have b: "T (symV ''M'') = SymbolType \<and> (0::int) < 10 \<and>
      Symbols cycDb (ToLower (S (symV ''M''))) = Some (symV ''Jan'')"
    by (simp add: symV_def cycDb_def rune_defs)
  have c: "T (symV ''Jan'') = SymbolType \<and> (0::int) < 9 \<and>
      Symbols cycDb (ToLower (S (symV ''Jan''))) = None \<and>
      predefinedSymbols (ToLower (S (symV ''Jan''))) = Some ''January''"
    by (simp add: symV_def cycDb_def predefinedSymbols_def rune_defs)
  have e: "T (symV ''nbt'') = SymbolType \<and> Symbols cycDb (ToLower (S (symV ''nbt''))) = None \<and>
      predefinedSymbols (ToLower (S (symV ''nbt''))) = None"
    by (simp add: symV_def cycDb_def predefinedSymbols_def rune_defs)
  show ?thesis
    using a b c e
      SymbolValue_resolution[of "strV ''x''" cycDb 10]
      SymbolValue_resolution[of "symV ''A''" cycDb 0]
      SymbolValue_resolution[of "symV ''M''" cycDb 10 "symV ''Jan''"]
      SymbolValue_resolution[of "symV ''Jan''" cycDb 9 _ "''January''"]
      SymbolValue_resolution[of "symV ''nbt''" cycDb 10]
    by simp
qed

text \<open>
  C3 as stated fails at the depth bound 0: \<open>jan\<close> is found only in the month table, and
  \<open>SymbolValue\<close> returns the Symbol itself, not a String.
\<close>

theorem SymbolValue_month_depth0_counterexample:
  "Symbols emptyDb (ToLower ''jan'') = None \<and>
   predefinedSymbols (ToLower ''jan'') = Some ''January'' \<and>
   SymbolValue emptyDb (symV ''jan'') 0 = symV ''jan'' \<and>
   T (SymbolValue emptyDb (symV ''jan'') 0) \<noteq> StringType"
  by code_simp

text \<open>
  C6. Whenever \<open>2020\<close> is not a key of the user symbol table (it is none of the month
  table), \<open>Number(2020)\<close> and \<open>Symbol("2020")\<close> are not \<open>Equals\<close> in either order, and
  neither is \<open>Less\<close> than the other: the number is compared as its decimal string.
\<close>

theorem Number_vs_Symbol_2020:
  assumes "Symbols db ''2020'' = None"
  shows "\<not> ValueEquals \<lparr>T = NumberType, S = s0, I = 2020\<rparr> \<lparr>T = SymbolType, S = ''2020'', I = i0\<rparr> \<and>
         \<not> ValueEquals \<lparr>T = SymbolType, S = ''2020'', I = i0\<rparr> \<lparr>T = NumberType, S = s0, I = 2020\<rparr> \<and>
         \<not> Less db \<lparr>T = NumberType, S = s0, I = 2020\<rparr> \<lparr>T = SymbolType, S = ''2020'', I = i0\<rparr> \<and>
         \<not> Less db \<lparr>T = SymbolType, S = ''2020'', I = i0\<rparr> \<lparr>T = NumberType, S = s0, I = 2020\<rparr>"
proof -
  have low: "ToLower ''2020'' = ''2020''" by (simp add: rune_defs)
  have pre: "predefinedSymbols ''2020'' = None" by (simp add: predefinedSymbols_def)
  have it: "Itoa 2020 = ''2020''" by (simp add: Itoa_def)
  have sv: "SymbolValue db \<lparr>T = SymbolType, S = ''2020'', I = i0\<rparr> 10
      = \<lparr>T = SymbolType, S = ''2020'', I = i0\<rparr>"
    using assms low pre by (simp add: SymbolValue_def)
  have nv: "SymbolValue db \<lparr>T = NumberType, S = s0, I = 2020\<rparr> 10
      = \<lparr>T = NumberType, S = s0, I = 2020\<rparr>"
    by (simp add: SymbolValue_def)
  show ?thesis
    by (simp add: ValueEquals_def Less_def sv nv it Let_def)
qed

theorem Number_vs_Symbol_2020_witness:
  "Symbols emptyDb ''2020'' = None \<and>
   \<not> ValueEquals (numV 2020) (symV ''2020'') \<and> \<not> ValueEquals (symV ''2020'') (numV 2020) \<and>
   \<not> Less emptyDb (numV 2020) (symV ''2020'') \<and> \<not> Less emptyDb (symV ''2020'') (numV 2020)"
proof -
  have h: "Symbols emptyDb ''2020'' = None" by (simp add: emptyDb_def)
  show ?thesis
    using h Number_vs_Symbol_2020[OF h, of "[]" 0] by (simp add: numV_def symV_def)
qed

section \<open>Minimal braces\<close>

text \<open>
  C5 at the title \<open>mRNA {x}\<close>, which is brace-balanced and neither wholly braced nor free
  of braces: \<open>FlattenToMinBraces\<close> wraps the strange-case word of the leaf and returns
  \<open>{mRNA} {x}\<close>, where the claim, and the comment above the function, leave the string
  as \<open>Flatten\<close> gives it.
\<close>

theorem FlattenToMinBraces_mixed_shape:
  "snd (ParseBraceTree ''mRNA {x}'') = length ''mRNA {x}'' \<and>
   \<not> IsEntireStringBraced (fst (ParseBraceTree ''mRNA {x}'')) \<and>
   \<not> ContainsNoBraces (fst (ParseBraceTree ''mRNA {x}'')) \<and>
   Flatten (fst (ParseBraceTree ''mRNA {x}'')) = ''mRNA {x}'' \<and>
   FlattenToMinBraces (fst (ParseBraceTree ''mRNA {x}'')) = ''{mRNA} {x}'' \<and>
   S (ConvertTitleToMinBraces ''title'' (strV ''mRNA {x}'')) = ''{mRNA} {x}''"
  by code_simp

section \<open>Subset elimination\<close>

lemma mergedDb_titleBins: "titleBins (Pubs mergedDb) = [''T'' \<mapsto> [0, 1, 2]]"
  by (simp add: titleBins_def mergedDb_def fullEntry_def shortEntry1_def shortEntry2_def
      strV_def numV_def binAppend_def upt_rec[of 0] upt_rec[of 1] upt_rec[of 2] eval_nat_numeral)

lemma mergedDb_titleHash:
  "titleHash fullEntry = ''t'' \<and> titleHash shortEntry1 = ''t'' \<and> titleHash shortEntry2 = ''t''"
  by code_simp

lemma mergedDb_FindDupsByTitle: "FindDupsByTitle (Pubs mergedDb) = [''t'' \<mapsto> [0, 1, 2]]"
  by (simp add: FindDupsByTitle_def mergedDb_titleHash binAppend_def mergedDb_def
      upt_rec[of 0] upt_rec[of 1] upt_rec[of 2] eval_nat_numeral)

text \<open>
  C2 at a database of three articles with the title \<open>T\<close>: one with a year, then two
  without. Both short entries are marked as subsets of the first; the pair of the two
  marked entries is examined as well, finds them subsets of each other and counts a
  third deletion. \<open>removeDeleted\<close> then makes a slice of length 0 and panics when it
  stores the surviving entry. The title-fingerprint variant does the same.
\<close>

theorem RemoveContainedEntries_overcount_panics:
  "rangeOrder (titleBins (Pubs mergedDb)) [''T''] \<and>
   overBins containedBin (titleBins (Pubs mergedDb)) [''T''] (Pubs mergedDb, 0)
     = ([fullEntry, shortEntry1\<lparr>Kind := Deleted\<rparr>, shortEntry2\<lparr>Kind := Deleted\<rparr>], 3) \<and>
   RemoveContainedEntries [''T''] mergedDb = Inl IndexOutOfRange \<and>
   rangeOrder (FindDupsByTitle (Pubs mergedDb)) [''t''] \<and>
   RemoveDupsByTitle [''t''] mergedDb = Inl IndexOutOfRange"
proof -
  have 1: "rangeOrder (titleBins (Pubs mergedDb)) [''T'']"
    by (simp add: rangeOrder_def mergedDb_titleBins)
  have 2: "overBins containedBin (titleBins (Pubs mergedDb)) [''T''] (Pubs mergedDb, 0)
     = ([fullEntry, shortEntry1\<lparr>Kind := Deleted\<rparr>, shortEntry2\<lparr>Kind := Deleted\<rparr>], 3)"
    by code_simp
  have 3: "RemoveContainedEntries [''T''] mergedDb = Inl IndexOutOfRange"
    by code_simp
  have 4: "rangeOrder (FindDupsByTitle (Pubs mergedDb)) [''t'']"
    by (simp add: rangeOrder_def mergedDb_FindDupsByTitle)
  have 5: "RemoveDupsByTitle [''t''] mergedDb = Inl IndexOutOfRange"
    by code_simp
  from 1 2 3 4 5 show ?thesis by blast
qed


section \<open>Exact duplicates\<close>

lemma bins_fold_char:
  "fold (\<lambda>p b. binAppend b (f p) p) [0..<n] Map.empty k =
     (if filter (\<lambda>p. f p = k) [0..<n] = [] then None else Some (filter (\<lambda>p. f p = k) [0..<n]))"
  by (induction n) (auto simp: binAppend_def)

lemma hasLaterDup_iff:
  "hasLaterDup st p qs = (\<exists>q \<in> set qs. EntryEquals (st ! p) (st ! q))"
  by (induction qs) auto

lemma exactDupsBin_char:
  assumes "sorted_wrt (<) ps" and "\<forall>p \<in> set ps. p < length st"
  shows "\<exists>st'. exactDupsBin ps (st, nd) =
           (st', nd + int (length (filter (\<lambda>p. \<exists>q \<in> set ps. p < q \<and> EntryEquals (st ! p) (st ! q)) ps))) \<and>
         length st' = length st \<and>
         (\<forall>i < length st. st' ! i =
            (if i \<in> set ps \<and> (\<exists>q \<in> set ps. i < q \<and> EntryEquals (st ! i) (st ! q))
             then (st ! i)\<lparr>Kind := Deleted\<rparr> else st ! i))"
  using assms
proof (induction ps arbitrary: st nd)
  case Nil
  then show ?case by simp
next
  case (Cons p ps)
  let ?D = "\<lambda>s i. \<exists>q \<in> set ps. i < q \<and> EntryEquals (s ! i) (s ! q)"
  have gt: "\<forall>q \<in> set ps. p < q" using Cons.prems(1) by simp
  have srt: "sorted_wrt (<) ps" using Cons.prems(1) by simp
  have pn: "p \<notin> set ps" using gt by auto
  have hl: "hasLaterDup st p ps = ?D st p"
    using gt by (auto simp: hasLaterDup_iff)
  define st2 where "st2 = (if ?D st p then markDeleted st p else st)"
  define nd2 where "nd2 = (if ?D st p then nd + 1 else nd)"
  have step: "exactDupsBin (p # ps) (st, nd) = exactDupsBin ps (st2, nd2)"
  proof (cases "?D st p")
    case True
    then have "hasLaterDup st p ps" using hl by blast
    then show ?thesis using True by (auto simp: st2_def nd2_def)
  next
    case False
    then have "\<not> hasLaterDup st p ps" using hl by blast
    then show ?thesis using False by (auto simp: st2_def nd2_def)
  qed
  have len2: "length st2 = length st" by (simp add: st2_def markDeleted_def)
  have same: "\<forall>i. i \<noteq> p \<longrightarrow> st2 ! i = st ! i" by (simp add: st2_def markDeleted_def)
  have atp: "st2 ! p = (if ?D st p then (st ! p)\<lparr>Kind := Deleted\<rparr> else st ! p)"
    using Cons.prems(2) by (auto simp: st2_def markDeleted_def)
  have bnd: "\<forall>p \<in> set ps. p < length st2" using Cons.prems(2) len2 by simp
  from Cons.IH[OF srt bnd, of nd2] obtain st' where
    r: "exactDupsBin ps (st2, nd2) =
         (st', nd2 + int (length (filter (?D st2) ps)))"
    and l: "length st' = length st2"
    and v: "\<forall>i < length st2. st' ! i = (if i \<in> set ps \<and> ?D st2 i then (st2 ! i)\<lparr>Kind := Deleted\<rparr> else st2 ! i)"
    by blast
  have Deq: "\<forall>i \<in> set ps. ?D st2 i = ?D st i"
    using same pn by (metis)
  have Dcons: "\<forall>i \<in> set ps. (\<exists>q \<in> set (p # ps). i < q \<and> EntryEquals (st ! i) (st ! q)) = ?D st i"
    using gt by force
  have Dp: "(\<exists>q \<in> set (p # ps). p < q \<and> EntryEquals (st ! p) (st ! q)) = ?D st p" by auto
  have f1: "filter (?D st2) ps = filter (?D st) ps"
    by (rule filter_cong[OF refl]) (use Deq in blast)
  have f2: "filter (\<lambda>i. \<exists>q \<in> set (p # ps). i < q \<and> EntryEquals (st ! i) (st ! q)) ps = filter (?D st) ps"
    by (rule filter_cong[OF refl]) (use Dcons in blast)
  have cnt: "nd2 + int (length (filter (?D st2) ps)) =
      nd + int (length (filter (\<lambda>i. \<exists>q \<in> set (p # ps). i < q \<and> EntryEquals (st ! i) (st ! q)) (p # ps)))"
    unfolding f1 filter.simps f2 Dp by (simp add: nd2_def)
  have vals: "\<forall>i < length st. st' ! i =
            (if i \<in> set (p # ps) \<and> (\<exists>q \<in> set (p # ps). i < q \<and> EntryEquals (st ! i) (st ! q))
             then (st ! i)\<lparr>Kind := Deleted\<rparr> else st ! i)"
  proof (intro allI impI)
    fix i assume i: "i < length st"
    show "st' ! i = (if i \<in> set (p # ps) \<and> (\<exists>q \<in> set (p # ps). i < q \<and> EntryEquals (st ! i) (st ! q))
             then (st ! i)\<lparr>Kind := Deleted\<rparr> else st ! i)"
    proof (cases "i = p")
      case True
      then show ?thesis using v i len2 pn atp Dp by auto
    next
      case False
      show ?thesis
      proof (cases "i \<in> set ps")
        case True
        then show ?thesis using v i len2 False same Deq Dcons by auto
      next
        case nin: False
        then show ?thesis using v i len2 False same by auto
      qed
    qed
  qed
  show ?case using step r cnt l len2 vals by auto
qed

lemma length_filter_disj:
  "(\<forall>x \<in> set xs. \<not> (P x \<and> Q x)) \<Longrightarrow>
   length (filter (\<lambda>x. P x \<or> Q x) xs) = length (filter P xs) + length (filter Q xs)"
  by (induction xs) auto

lemma laterDuplicate_iff:
  "laterDuplicate pubs p = (\<exists>q. p < q \<and> q < length pubs \<and> keyAt pubs q = keyAt pubs p \<and>
                                EntryEquals (pubs ! p) (pubs ! q))"
  unfolding laterDuplicate_def list_ex_iff by (force simp: Suc_le_eq)

lemma exactBins_char:
  "exactBins pubs k =
     (if filter (\<lambda>p. keyAt pubs p = k) [0..<length pubs] = [] then None
      else Some (filter (\<lambda>p. keyAt pubs p = k) [0..<length pubs]))"
  unfolding exactBins_def keyAt_def by (rule bins_fold_char)

lemma overBins_exact_char:
  assumes "distinct ks" and "length st = length pubs"
    and "\<forall>i < length pubs. keyAt pubs i \<in> set ks \<longrightarrow> st ! i = pubs ! i"
  shows "\<exists>st'. overBins exactDupsBin (exactBins pubs) ks (st, nd) =
           (st', nd + int (length (filter (\<lambda>i. keyAt pubs i \<in> set ks \<and> laterDuplicate pubs i) [0..<length pubs]))) \<and>
         length st' = length pubs \<and>
         (\<forall>i < length pubs. st' ! i =
            (if keyAt pubs i \<in> set ks \<and> laterDuplicate pubs i then (pubs ! i)\<lparr>Kind := Deleted\<rparr> else st ! i))"
  using assms
proof (induction ks arbitrary: st nd)
  case Nil
  then show ?case by (simp add: overBins_def)
next
  case (Cons k ks)
  let ?n = "length pubs"
  let ?ps = "filter (\<lambda>p. keyAt pubs p = k) [0..<?n]"
  have kn: "k \<notin> set ks" and dks: "distinct ks" using Cons.prems(1) by auto
  have unfold: "overBins exactDupsBin (exactBins pubs) (k # ks) (st, nd) =
      overBins exactDupsBin (exactBins pubs) ks
        (case exactBins pubs k of None \<Rightarrow> (st, nd) | Some es \<Rightarrow> exactDupsBin es (st, nd))"
    by (simp add: overBins_def)
  have srt: "sorted_wrt (<) ?ps" by (simp add: sorted_wrt_filter)
  have bnd: "\<forall>p \<in> set ?ps. p < length st" using Cons.prems(2) by simp
  from exactDupsBin_char[OF srt bnd, of nd] obtain st1 where
    r1: "exactDupsBin ?ps (st, nd) =
          (st1, nd + int (length (filter (\<lambda>p. \<exists>q \<in> set ?ps. p < q \<and> EntryEquals (st ! p) (st ! q)) ?ps)))"
    and l1: "length st1 = length st"
    and v1: "\<forall>i < length st. st1 ! i =
        (if i \<in> set ?ps \<and> (\<exists>q \<in> set ?ps. i < q \<and> EntryEquals (st ! i) (st ! q))
         then (st ! i)\<lparr>Kind := Deleted\<rparr> else st ! i)"
    by blast
  have agree: "\<forall>i \<in> set ?ps. st ! i = pubs ! i" using Cons.prems(3) by simp
  have Deq: "\<forall>i \<in> set ?ps. (\<exists>q \<in> set ?ps. i < q \<and> EntryEquals (st ! i) (st ! q)) = laterDuplicate pubs i"
  proof
    fix i assume i: "i \<in> set ?ps"
    then have ki: "keyAt pubs i = k" by simp
    have "(\<exists>q \<in> set ?ps. i < q \<and> EntryEquals (st ! i) (st ! q)) =
          (\<exists>q \<in> set ?ps. i < q \<and> EntryEquals (pubs ! i) (pubs ! q))"
      using agree i by (metis (no_types, lifting))
    also have "\<dots> = laterDuplicate pubs i"
      unfolding laterDuplicate_iff ki by auto
    finally show "(\<exists>q \<in> set ?ps. i < q \<and> EntryEquals (st ! i) (st ! q)) = laterDuplicate pubs i" .
  qed
  have c1: "filter (\<lambda>p. \<exists>q \<in> set ?ps. p < q \<and> EntryEquals (st ! p) (st ! q)) ?ps =
            filter (\<lambda>i. keyAt pubs i = k \<and> laterDuplicate pubs i) [0..<?n]"
  proof -
    have "filter (\<lambda>p. \<exists>q \<in> set ?ps. p < q \<and> EntryEquals (st ! p) (st ! q)) ?ps = filter (laterDuplicate pubs) ?ps"
      by (rule filter_cong[OF refl]) (use Deq in blast)
    also have "\<dots> = filter (\<lambda>i. keyAt pubs i = k \<and> laterDuplicate pubs i) [0..<?n]"
      by (simp add: conj_commute)
    finally show ?thesis .
  qed
  define st2 where "st2 = (if ?ps = [] then st else st1)"
  define nd2 where "nd2 = (if ?ps = [] then nd else nd + int (length (filter (\<lambda>i. keyAt pubs i = k \<and> laterDuplicate pubs i) [0..<?n])))"
  have step: "overBins exactDupsBin (exactBins pubs) (k # ks) (st, nd) =
      overBins exactDupsBin (exactBins pubs) ks (st2, nd2)"
    unfolding unfold exactBins_char st2_def nd2_def using r1 c1 by simp
  have emp: "?ps = [] \<Longrightarrow> filter (\<lambda>i. keyAt pubs i = k \<and> laterDuplicate pubs i) [0..<?n] = []"
    by (auto simp: filter_empty_conv)
  have nd2': "nd2 = nd + int (length (filter (\<lambda>i. keyAt pubs i = k \<and> laterDuplicate pubs i) [0..<?n]))"
    using emp by (simp add: nd2_def)
  have l2: "length st2 = length pubs" using l1 Cons.prems(2) by (simp add: st2_def)
  have v2: "\<forall>i < ?n. st2 ! i = (if keyAt pubs i = k \<and> laterDuplicate pubs i then (pubs ! i)\<lparr>Kind := Deleted\<rparr> else st ! i)"
  proof (intro allI impI)
    fix i assume i: "i < ?n"
    show "st2 ! i = (if keyAt pubs i = k \<and> laterDuplicate pubs i then (pubs ! i)\<lparr>Kind := Deleted\<rparr> else st ! i)"
    proof (cases "keyAt pubs i = k")
      case True
      then have ips: "i \<in> set ?ps" using i by simp
      have ne: "?ps \<noteq> []" by (metis ips empty_iff empty_set)
      have "st1 ! i = (if laterDuplicate pubs i then (st ! i)\<lparr>Kind := Deleted\<rparr> else st ! i)"
        using v1 i Cons.prems(2) ips Deq by auto
      then show ?thesis using True ne agree ips by (simp add: st2_def)
    next
      case False
      then have ips: "i \<notin> set ?ps" by simp
      have "st1 ! i = st ! i" using v1 i Cons.prems(2) ips by auto
      then show ?thesis using False by (simp add: st2_def)
    qed
  qed
  have pre3: "\<forall>i < ?n. keyAt pubs i \<in> set ks \<longrightarrow> st2 ! i = pubs ! i"
    using v2 kn Cons.prems(3) by auto
  from Cons.IH[OF dks l2 pre3, of nd2] obtain st' where
    r: "overBins exactDupsBin (exactBins pubs) ks (st2, nd2) =
         (st', nd2 + int (length (filter (\<lambda>i. keyAt pubs i \<in> set ks \<and> laterDuplicate pubs i) [0..<?n])))"
    and l: "length st' = ?n"
    and v: "\<forall>i < ?n. st' ! i = (if keyAt pubs i \<in> set ks \<and> laterDuplicate pubs i then (pubs ! i)\<lparr>Kind := Deleted\<rparr> else st2 ! i)"
    by blast
  have cnt: "length (filter (\<lambda>i. keyAt pubs i \<in> set (k # ks) \<and> laterDuplicate pubs i) [0..<?n]) =
      length (filter (\<lambda>i. keyAt pubs i = k \<and> laterDuplicate pubs i) [0..<?n]) +
      length (filter (\<lambda>i. keyAt pubs i \<in> set ks \<and> laterDuplicate pubs i) [0..<?n])"
  proof -
    have "filter (\<lambda>i. keyAt pubs i \<in> set (k # ks) \<and> laterDuplicate pubs i) [0..<?n] =
          filter (\<lambda>i. (keyAt pubs i = k \<and> laterDuplicate pubs i) \<or> (keyAt pubs i \<in> set ks \<and> laterDuplicate pubs i)) [0..<?n]"
      by (rule filter_cong[OF refl]) auto
    then show ?thesis
      using length_filter_disj[of "[0..<?n]" "\<lambda>i. keyAt pubs i = k \<and> laterDuplicate pubs i"
          "\<lambda>i. keyAt pubs i \<in> set ks \<and> laterDuplicate pubs i"] kn by auto
  qed
  have vals: "\<forall>i < ?n. st' ! i =
      (if keyAt pubs i \<in> set (k # ks) \<and> laterDuplicate pubs i then (pubs ! i)\<lparr>Kind := Deleted\<rparr> else st ! i)"
    using v v2 by auto
  have fin: "overBins exactDupsBin (exactBins pubs) (k # ks) (st, nd) =
      (st', nd + int (length (filter (\<lambda>i. keyAt pubs i \<in> set (k # ks) \<and> laterDuplicate pubs i) [0..<?n])))"
    unfolding step r cnt by (simp add: nd2')
  show ?case using fin l vals by blast
qed

lemma fillSlots_char:
  "i + length (filter (\<lambda>e. Kind e \<noteq> Deleted) es) \<le> length slots \<Longrightarrow>
   fillSlots slots i es =
     Inr (take i slots @ map Some (filter (\<lambda>e. Kind e \<noteq> Deleted) es) @
          drop (i + length (filter (\<lambda>e. Kind e \<noteq> Deleted) es)) slots)"
proof (induction es arbitrary: slots i)
  case Nil
  then show ?case by simp
next
  case (Cons e es)
  show ?case
  proof (cases "Kind e \<noteq> Deleted")
    case False
    then show ?thesis using Cons by simp
  next
    case True
    have i: "i < length slots" using Cons.prems True by simp
    have le: "Suc i + length (filter (\<lambda>e. Kind e \<noteq> Deleted) es) \<le> length (slots[i := Some e])"
      using Cons.prems True by simp
    have tk: "take (Suc i) (slots[i := Some e]) = take i slots @ [Some e]"
      using i by (simp add: take_Suc_conv_app_nth)
    show ?thesis
      using True i Cons.IH[OF le] tk by simp
  qed
qed

lemma removeDeleted_exact:
  assumes "ndel = int (length (filter (\<lambda>e. Kind e = Deleted) st))"
  shows "removeDeleted st ndel = Inr (map Some (filter (\<lambda>e. Kind e \<noteq> Deleted) st))"
proof -
  have sum: "length (filter (\<lambda>e. Kind e = Deleted) st) + length (filter (\<lambda>e. Kind e \<noteq> Deleted) st) = length st"
    using sum_length_filter_compl[of "\<lambda>e. Kind e = Deleted" st] by simp
  then have n: "nat (int (length st) - ndel) = length (filter (\<lambda>e. Kind e \<noteq> Deleted) st)"
    using assms by simp
  have nn: "\<not> int (length st) - ndel < 0" using assms sum by simp
  show ?thesis
    using nn n fillSlots_char[of 0 st "replicate (length (filter (\<lambda>e. Kind e \<noteq> Deleted) st)) None"]
    by (simp add: removeDeleted_def)
qed

lemma ValueEquals_refl: "ValueEquals v v"
  by (cases "T v") (simp_all add: ValueEquals_def)

lemma IsSubset_same_fields:
  assumes "Kind e1 = Kind e2" and "ToLower (EntryString e1) = ToLower (EntryString e2)"
    and "Fields e1 = Fields e2" and "distinct (map fst (Fields e1))"
  shows "IsSubset e1 e2"
proof -
  have "\<forall>(tag, v) \<in> set (Fields e1). map_of (Fields e2) tag = Some v"
    using assms(3,4) by auto
  then show ?thesis
    using assms(1,2) by (auto simp: IsSubset_def list_all_iff ValueEquals_refl)
qed

text \<open>
  C1, as the code has it. In every range order of the bins, and for a database none of
  whose entries is \<open>Deleted\<close> already, \<open>RemoveExactDups\<close> marks exactly the entries that
  \<open>Equals\<close> some later entry of their bin (the earlier entry of a pair, not the later
  one), and assigns to \<open>Pubs\<close> the other entries, unchanged and in their order. Of two
  entries with the same Kind, the same type string up to case, the same Key and the same
  fields, the second alone is left.
\<close>

theorem RemoveExactDups_marks_earlier:
  assumes ro: "rangeOrder (exactBins (Pubs db)) ks"
    and nodel: "\<forall>e \<in> set (Pubs db). Kind e \<noteq> Deleted"
  shows "fst (overBins exactDupsBin (exactBins (Pubs db)) ks (Pubs db, 0)) =
           map (\<lambda>p. if laterDuplicate (Pubs db) p then (Pubs db ! p)\<lparr>Kind := Deleted\<rparr> else Pubs db ! p)
               [0..<length (Pubs db)] \<and>
         RemoveExactDups ks db =
           Inr (map Some (map (\<lambda>p. Pubs db ! p)
                  (filter (\<lambda>p. \<not> laterDuplicate (Pubs db) p) [0..<length (Pubs db)]))) \<and>
         (Pubs db = [e1, e2] \<and> Kind e1 = Kind e2 \<and>
          ToLower (EntryString e1) = ToLower (EntryString e2) \<and> Key e1 = Key e2 \<and>
          Fields e1 = Fields e2 \<and> distinct (map fst (Fields e1))
          \<longrightarrow> RemoveExactDups ks db = Inr [Some e2])"
proof -
  let ?pubs = "Pubs db"
  let ?n = "length ?pubs"
  let ?g = "\<lambda>p. if laterDuplicate ?pubs p then (?pubs ! p)\<lparr>Kind := Deleted\<rparr> else ?pubs ! p"
  have dks: "distinct ks" and sks: "set ks = dom (exactBins ?pubs)"
    using ro by (auto simp: rangeOrder_def)
  have inks: "\<forall>i < ?n. keyAt ?pubs i \<in> set ks"
  proof (intro allI impI)
    fix i assume i: "i < ?n"
    then have "i \<in> set (filter (\<lambda>p. keyAt ?pubs p = keyAt ?pubs i) [0..<?n])" by simp
    then have "filter (\<lambda>p. keyAt ?pubs p = keyAt ?pubs i) [0..<?n] \<noteq> []"
      by (metis empty_iff empty_set)
    then have "exactBins ?pubs (keyAt ?pubs i) \<noteq> None" by (simp add: exactBins_char)
    then show "keyAt ?pubs i \<in> set ks" using sks by (auto simp: dom_def)
  qed
  from overBins_exact_char[OF dks refl, of ?pubs 0] obtain st' where
    r: "overBins exactDupsBin (exactBins ?pubs) ks (?pubs, 0) =
         (st', 0 + int (length (filter (\<lambda>i. keyAt ?pubs i \<in> set ks \<and> laterDuplicate ?pubs i) [0..<?n])))"
    and l: "length st' = ?n"
    and v: "\<forall>i < ?n. st' ! i =
        (if keyAt ?pubs i \<in> set ks \<and> laterDuplicate ?pubs i then (?pubs ! i)\<lparr>Kind := Deleted\<rparr> else ?pubs ! i)"
    by blast
  have st': "st' = map ?g [0..<?n]"
    by (rule nth_equalityI) (use l v inks in \<open>auto\<close>)
  have fcount: "filter (\<lambda>i. keyAt ?pubs i \<in> set ks \<and> laterDuplicate ?pubs i) [0..<?n] = filter (laterDuplicate ?pubs) [0..<?n]"
    by (rule filter_cong[OF refl]) (use inks in \<open>auto\<close>)
  have orig: "\<forall>i < ?n. Kind (?pubs ! i) \<noteq> Deleted" using nodel by simp
  have delg: "\<forall>i \<in> set [0..<?n]. (Kind (?g i) = Deleted) = laterDuplicate ?pubs i"
    using orig by auto
  have fdel: "filter (\<lambda>e. Kind e = Deleted) st' = map ?g (filter (laterDuplicate ?pubs) [0..<?n])"
    unfolding st' filter_map o_def
    by (rule arg_cong[where f = "map ?g"], rule filter_cong[OF refl]) (use delg in blast)
  have fnd: "filter (\<lambda>e. Kind e \<noteq> Deleted) st' = map ?g (filter (\<lambda>p. \<not> laterDuplicate ?pubs p) [0..<?n])"
    unfolding st' filter_map o_def
    by (rule arg_cong[where f = "map ?g"], rule filter_cong[OF refl]) (use delg in blast)
  have gmap: "map ?g (filter (\<lambda>p. \<not> laterDuplicate ?pubs p) [0..<?n]) =
        map (\<lambda>p. ?pubs ! p) (filter (\<lambda>p. \<not> laterDuplicate ?pubs p) [0..<?n])"
    by (rule map_cong[OF refl]) simp
  have nd: "int (length (filter (laterDuplicate ?pubs) [0..<?n])) = int (length (filter (\<lambda>e. Kind e = Deleted) st'))"
    unfolding fdel by simp
  have marks: "fst (overBins exactDupsBin (exactBins ?pubs) ks (?pubs, 0)) = map ?g [0..<?n]"
    unfolding r using st' by simp
  have res: "RemoveExactDups ks db =
      Inr (map Some (map (\<lambda>p. ?pubs ! p) (filter (\<lambda>p. \<not> laterDuplicate ?pubs p) [0..<?n])))"
    unfolding RemoveExactDups_def r fcount
    using removeDeleted_exact[OF nd[unfolded add_0]] fnd gmap by simp
  have two: "RemoveExactDups ks db = Inr [Some e2]"
    if h: "Pubs db = [e1, e2] \<and> Kind e1 = Kind e2 \<and>
          ToLower (EntryString e1) = ToLower (EntryString e2) \<and> Key e1 = Key e2 \<and>
          Fields e1 = Fields e2 \<and> distinct (map fst (Fields e1))"
  proof -
    have h1: "Kind e1 = Kind e2" and h2: "ToLower (EntryString e1) = ToLower (EntryString e2)"
      and h3: "Fields e1 = Fields e2" and h4: "distinct (map fst (Fields e1))"
      using h by blast+
    have h4': "distinct (map fst (Fields e2))" using h3 h4 by simp
    have eq: "EntryEquals e1 e2"
      using IsSubset_same_fields[OF h1 h2 h3 h4]
        IsSubset_same_fields[OF h1[symmetric] h2[symmetric] h3[symmetric] h4']
      by (simp add: EntryEquals_def)
    have d0: "laterDuplicate [e1, e2] 0"
      using eq h by (simp add: laterDuplicate_def keyAt_def)
    have d1: "\<not> laterDuplicate [e1, e2] 1"
      by (simp add: laterDuplicate_def)
    have "[0..<length [e1, e2]] = [0, 1]" by (simp add: upt_rec)
    then show ?thesis using res h d0 d1 by simp
  qed
  from marks res two show ?thesis by blast
qed

lemma dupDb_bins: "exactBins (Pubs dupDb) = [''moo'' \<mapsto> [0, 2], ''x'' \<mapsto> [1]]"
  by (rule ext) (simp add: exactBins_def dupDb_def dupA_def dupB_def otherE_def binAppend_def
      upt_rec[of 0] upt_rec[of 1] upt_rec[of 2] eval_nat_numeral rune_defs)

lemma twinDb_bins: "exactBins (Pubs twinDb) = [''moo'' \<mapsto> [0, 1]]"
  by (rule ext) (simp add: exactBins_def twinDb_def dupB_def binAppend_def
      upt_rec[of 0] upt_rec[of 1] upt_rec[of 2] eval_nat_numeral rune_defs)

theorem RemoveExactDups_marks_earlier_witness:
  "rangeOrder (exactBins (Pubs dupDb)) [''moo'', ''x''] \<and>
   Kind dupA \<noteq> Deleted \<and> Kind otherE \<noteq> Deleted \<and> Kind dupB \<noteq> Deleted \<and>
   RemoveExactDups [''moo'', ''x''] dupDb = Inr [Some otherE, Some dupB] \<and>
   rangeOrder (exactBins (Pubs twinDb)) [''moo''] \<and>
   Pubs twinDb = [dupB, dupB\<lparr>LineNo := 20\<rparr>] \<and>
   distinct (map fst (Fields dupB)) \<and>
   RemoveExactDups [''moo''] twinDb = Inr [Some (dupB\<lparr>LineNo := 20\<rparr>)]"
proof -
  have ro: "rangeOrder (exactBins (Pubs dupDb)) [''moo'', ''x'']"
    by (auto simp: rangeOrder_def dupDb_bins)
  have k: "Kind dupA \<noteq> Deleted \<and> Kind otherE \<noteq> Deleted \<and> Kind dupB \<noteq> Deleted"
    by code_simp
  have nd: "\<forall>e \<in> set (Pubs dupDb). Kind e \<noteq> Deleted"
    using k by (simp add: dupDb_def)
  have ev: "map (\<lambda>p. Pubs dupDb ! p)
        (filter (\<lambda>p. \<not> laterDuplicate (Pubs dupDb) p) [0..<length (Pubs dupDb)])
      = [otherE, dupB]"
    by code_simp
  have ro2: "rangeOrder (exactBins (Pubs twinDb)) [''moo'']"
    by (auto simp: rangeOrder_def twinDb_bins)
  have nd2: "\<forall>e \<in> set (Pubs twinDb). Kind e \<noteq> Deleted"
    using k by (simp add: twinDb_def)
  have tw: "Pubs twinDb = [dupB, dupB\<lparr>LineNo := 20\<rparr>] \<and> distinct (map fst (Fields dupB))"
    by (simp add: twinDb_def dupB_def)
  have pre: "Pubs twinDb = [dupB, dupB\<lparr>LineNo := 20\<rparr>] \<and> Kind dupB = Kind (dupB\<lparr>LineNo := 20\<rparr>) \<and>
      ToLower (EntryString dupB) = ToLower (EntryString (dupB\<lparr>LineNo := 20\<rparr>)) \<and>
      Key dupB = Key (dupB\<lparr>LineNo := 20\<rparr>) \<and> Fields dupB = Fields (dupB\<lparr>LineNo := 20\<rparr>) \<and>
      distinct (map fst (Fields dupB))"
    using tw by simp
  have r1: "RemoveExactDups [''moo'', ''x''] dupDb = Inr [Some otherE, Some dupB]"
    using RemoveExactDups_marks_earlier[OF ro nd] ev by simp
  have r2: "RemoveExactDups [''moo''] twinDb = Inr [Some (dupB\<lparr>LineNo := 20\<rparr>)]"
    using RemoveExactDups_marks_earlier[OF ro2 nd2, of dupB "dupB\<lparr>LineNo := 20\<rparr>"] pre by blast
  from ro k r1 ro2 tw r2 show ?thesis by blast
qed

text \<open>
  C1 as stated fails on \<open>dupDb\<close>: its first and third entries are \<open>Equals\<close> and share a
  bin; the code marks the first, the one at the smaller index, and leaves the book and the
  third entry, where the claim leaves the first entry and the book.
\<close>

theorem RemoveExactDups_later_marked_counterexample:
  "EntryEquals dupA dupB \<and> ToLower (Key dupA) = ToLower (Key dupB) \<and>
   Pubs dupDb = [dupA, otherE, dupB] \<and>
   overBins exactDupsBin (exactBins (Pubs dupDb)) [''moo'', ''x''] (Pubs dupDb, 0) =
     ([dupA\<lparr>Kind := Deleted\<rparr>, otherE, dupB], 1) \<and>
   RemoveExactDups [''moo'', ''x''] dupDb = Inr [Some otherE, Some dupB] \<and>
   RemoveExactDups [''moo'', ''x''] dupDb \<noteq> Inr [Some dupA, Some otherE]"
  by code_simp

section \<open>Round trip through the brace tree\<close>

lemma flatKids_append [simp]: "flatKids (ks @ ks') = flatKids ks @ flatKids ks'"
  by (simp add: flatKids_def)

lemma flatKids_Nil [simp]: "flatKids [] = []"
  by (simp add: flatKids_def)

lemma flatKids_saveAccum [simp]: "flatKids (saveAccum kids accum) = flatKids kids @ accum"
  by (simp add: saveAccum_def flatKids_def)

lemma flatten_group:
  "flatKids ks \<noteq> [] \<Longrightarrow> flatten (BraceNode (Some ks) []) False True = CHR ''{'' # flatKids ks @ ''}''"
  by (cases ks) (simp_all add: flatKids_def)

lemma flatKids_group:
  "flatKids ks \<noteq> [] \<Longrightarrow> flatKids [BraceNode (Some ks) []] = CHR ''{'' # flatKids ks @ ''}''"
  using flatten_group[of ks] by (simp add: flatKids_def)

lemma balancedFrom_append:
  "balancedFrom e b \<Longrightarrow> balancedFrom (d + e) (b @ x) = balancedFrom d x"
proof (induction b arbitrary: e)
  case Nil
  then show ?case by simp
next
  case (Cons r b)
  show ?case
  proof (cases "r = CHR ''{''")
    case True
    then show ?thesis using Cons.IH[of "Suc e"] Cons.prems by simp
  next
    case False
    show ?thesis
    proof (cases "r = CHR ''}''")
      case True
      then obtain e' where e: "e = Suc e'" using Cons.prems by (cases e) auto
      then show ?thesis using True Cons.IH[of e'] Cons.prems by simp
    next
      case nb: False
      then show ?thesis using False Cons.IH[of e] Cons.prems by simp
    qed
  qed
qed

lemma hasEmptyGroup_appendD:
  "\<not> hasEmptyGroup (xs @ ys) \<Longrightarrow> \<not> hasEmptyGroup xs \<and> \<not> hasEmptyGroup ys"
proof (induction xs rule: hasEmptyGroup.induct)
  case 1
  then show ?case by simp
next
  case (2 r)
  then show ?case by (cases ys) auto
next
  case (3 a b rest)
  then show ?case by auto
qed

lemma hasEmptyGroup_ConsD: "\<not> hasEmptyGroup (r # xs) \<Longrightarrow> \<not> hasEmptyGroup xs"
  by (cases xs) auto

lemma parseLoop_char:
  "(balancedFrom 0 rest \<longrightarrow>
      (\<exists>ks. parseLoop rest i kids accum = (BraceNode (Some ks) [], i + length rest) \<and>
            (\<not> hasEmptyGroup rest \<longrightarrow> flatKids ks = flatKids kids @ accum @ rest))) \<and>
   (\<forall>d. balancedFrom (Suc d) rest \<longrightarrow>
      (\<exists>body tail ks. rest = body @ CHR ''}'' # tail \<and> balancedFrom 0 body \<and> balancedFrom d tail \<and>
            parseLoop rest i kids accum = (BraceNode (Some ks) [], i + length body + 1) \<and>
            (\<not> hasEmptyGroup (body @ ''}'') \<longrightarrow> flatKids ks = flatKids kids @ accum @ body)))"
proof (induction rest i kids accum rule: parseLoop.induct)
  case (1 i kids accum)
  show ?case by simp
next
  case (2 r rest i kids accum)
  show ?case
  proof (cases "r = CHR ''{''")
    case isopen: True
    obtain c nread where inner: "parseLoop rest 0 [] [] = (c, nread)" by (cases "parseLoop rest 0 [] []")
    note IH1 = "2.IH"(1)[OF isopen]
    note IH2 = "2.IH"(2)[OF isopen inner[symmetric]]
    have step: "parseLoop (r # rest) i kids accum =
        parseLoop (drop nread rest) (i + (1 + nread)) (saveAccum kids accum @ [c]) []"
      using isopen inner by simp
    have inner_char: "\<And>d. balancedFrom (Suc d) rest \<Longrightarrow>
        \<exists>body tail ks. rest = body @ CHR ''}'' # tail \<and> balancedFrom 0 body \<and> balancedFrom d tail \<and>
          c = BraceNode (Some ks) [] \<and> nread = length body + 1 \<and>
          (\<not> hasEmptyGroup (body @ ''}'') \<longrightarrow> flatKids ks = body)"
      using IH1 inner by fastforce
    have top: "balancedFrom 0 (r # rest) \<longrightarrow>
      (\<exists>ks. parseLoop (r # rest) i kids accum = (BraceNode (Some ks) [], i + length (r # rest)) \<and>
            (\<not> hasEmptyGroup (r # rest) \<longrightarrow> flatKids ks = flatKids kids @ accum @ (r # rest)))"
    proof
      assume "balancedFrom 0 (r # rest)"
      then have b1: "balancedFrom (Suc 0) rest" using isopen by simp
      from inner_char[OF b1] obtain body tail ks1 where
        rest: "rest = body @ CHR ''}'' # tail" and bb: "balancedFrom 0 body" and bt: "balancedFrom 0 tail"
        and c: "c = BraceNode (Some ks1) []" and nr: "nread = length body + 1"
        and fl: "\<not> hasEmptyGroup (body @ ''}'') \<longrightarrow> flatKids ks1 = body"
        by blast
      have dr: "drop nread rest = tail" using rest nr by simp
      from IH2 bt dr obtain ks where
        p: "parseLoop tail (i + (1 + nread)) (saveAccum kids accum @ [c]) [] =
              (BraceNode (Some ks) [], i + (1 + nread) + length tail)"
        and f: "\<not> hasEmptyGroup tail \<longrightarrow> flatKids ks = flatKids (saveAccum kids accum @ [c]) @ [] @ tail"
        by auto
      have len: "i + (1 + nread) + length tail = i + length (r # rest)" using rest nr by simp
      have content: "flatKids ks = flatKids kids @ accum @ (r # rest)" if ne: "\<not> hasEmptyGroup (r # rest)"
      proof -
        have ne1: "\<not> hasEmptyGroup ((CHR ''{'' # body @ ''}'') @ tail)" using ne isopen rest by simp
        have neb: "\<not> hasEmptyGroup (CHR ''{'' # body @ ''}'')" and net: "\<not> hasEmptyGroup tail"
          using hasEmptyGroup_appendD[OF ne1] by auto
        have bne: "body \<noteq> []" using neb by auto
        have neb': "\<not> hasEmptyGroup (body @ ''}'')" using hasEmptyGroup_ConsD[OF neb] .
        have fk: "flatKids ks1 = body" using fl neb' by simp
        have "flatKids [c] = CHR ''{'' # body @ ''}''"
          using flatKids_group[of ks1] fk bne c by simp
        then show ?thesis using f net isopen rest by simp
      qed
      show "\<exists>ks. parseLoop (r # rest) i kids accum = (BraceNode (Some ks) [], i + length (r # rest)) \<and>
            (\<not> hasEmptyGroup (r # rest) \<longrightarrow> flatKids ks = flatKids kids @ accum @ (r # rest))"
        using step dr p len content by auto
    qed
    have inn: "\<forall>d. balancedFrom (Suc d) (r # rest) \<longrightarrow>
      (\<exists>body tail ks. r # rest = body @ CHR ''}'' # tail \<and> balancedFrom 0 body \<and> balancedFrom d tail \<and>
            parseLoop (r # rest) i kids accum = (BraceNode (Some ks) [], i + length body + 1) \<and>
            (\<not> hasEmptyGroup (body @ ''}'') \<longrightarrow> flatKids ks = flatKids kids @ accum @ body))"
    proof (intro allI impI)
      fix d assume "balancedFrom (Suc d) (r # rest)"
      then have b1: "balancedFrom (Suc (Suc d)) rest" using isopen by simp
      from inner_char[OF b1] obtain body1 tail1 ks1 where
        rest: "rest = body1 @ CHR ''}'' # tail1" and bb: "balancedFrom 0 body1" and bt: "balancedFrom (Suc d) tail1"
        and c: "c = BraceNode (Some ks1) []" and nr: "nread = length body1 + 1"
        and fl: "\<not> hasEmptyGroup (body1 @ ''}'') \<longrightarrow> flatKids ks1 = body1"
        by blast
      have dr: "drop nread rest = tail1" using rest nr by simp
      from IH2 bt dr obtain body2 tail2 ks where
        t1: "tail1 = body2 @ CHR ''}'' # tail2" and bb2: "balancedFrom 0 body2" and bt2: "balancedFrom d tail2"
        and p: "parseLoop tail1 (i + (1 + nread)) (saveAccum kids accum @ [c]) [] =
              (BraceNode (Some ks) [], i + (1 + nread) + length body2 + 1)"
        and f: "\<not> hasEmptyGroup (body2 @ ''}'') \<longrightarrow> flatKids ks = flatKids (saveAccum kids accum @ [c]) @ [] @ body2"
        by blast
      let ?body = "r # body1 @ CHR ''}'' # body2"
      have whole: "r # rest = ?body @ CHR ''}'' # tail2" using rest t1 by simp
      have "balancedFrom (Suc 0) (body1 @ CHR ''}'' # body2) = balancedFrom (Suc 0) (CHR ''}'' # body2)"
        using balancedFrom_append[OF bb, of "Suc 0" "CHR ''}'' # body2"] by simp
      then have balb: "balancedFrom 0 ?body" using isopen bb2 by simp
      have len: "i + (1 + nread) + length body2 + 1 = i + length ?body + 1" using nr by simp
      have content: "flatKids ks = flatKids kids @ accum @ ?body" if ne: "\<not> hasEmptyGroup (?body @ ''}'')"
      proof -
        have ne1: "\<not> hasEmptyGroup ((CHR ''{'' # body1 @ ''}'') @ (body2 @ ''}''))" using ne isopen by simp
        have neb: "\<not> hasEmptyGroup (CHR ''{'' # body1 @ ''}'')" and net: "\<not> hasEmptyGroup (body2 @ ''}'')"
          using hasEmptyGroup_appendD[OF ne1] by auto
        have bne: "body1 \<noteq> []" using neb by auto
        have neb': "\<not> hasEmptyGroup (body1 @ ''}'')" using hasEmptyGroup_ConsD[OF neb] .
        have fk: "flatKids ks1 = body1" using fl neb' by simp
        have "flatKids [c] = CHR ''{'' # body1 @ ''}''"
          using flatKids_group[of ks1] fk bne c by simp
        then show ?thesis using f net isopen by simp
      qed
      show "\<exists>body tail ks. r # rest = body @ CHR ''}'' # tail \<and> balancedFrom 0 body \<and> balancedFrom d tail \<and>
            parseLoop (r # rest) i kids accum = (BraceNode (Some ks) [], i + length body + 1) \<and>
            (\<not> hasEmptyGroup (body @ ''}'') \<longrightarrow> flatKids ks = flatKids kids @ accum @ body)"
        using whole balb bt2 step dr p len content by (metis (no_types, lifting))
    qed
    from top inn show ?thesis by blast
  next
    case notopen: False
    show ?thesis
    proof (cases "r = CHR ''}''")
      case True
      have "parseLoop (r # rest) i kids accum = (BraceNode (Some (saveAccum kids accum)) [], i + 1)"
        using True by simp
      moreover have "\<not> balancedFrom 0 (r # rest)" using True by simp
      moreover have "\<And>d. balancedFrom (Suc d) (r # rest) \<Longrightarrow> balancedFrom d rest" using True by simp
      ultimately show ?thesis
        using True by (intro conjI allI impI; simp)
    next
      case False
      note IH = "2.IH"(3)[OF notopen False]
      have step: "parseLoop (r # rest) i kids accum = parseLoop rest (i + 1) kids (accum @ [r])"
        using notopen False by simp
      have bal: "\<And>d. balancedFrom d (r # rest) = balancedFrom d rest" using notopen False by simp
      have top: "balancedFrom 0 (r # rest) \<longrightarrow>
        (\<exists>ks. parseLoop (r # rest) i kids accum = (BraceNode (Some ks) [], i + length (r # rest)) \<and>
            (\<not> hasEmptyGroup (r # rest) \<longrightarrow> flatKids ks = flatKids kids @ accum @ (r # rest)))"
        using IH step bal hasEmptyGroup_ConsD[of r rest] by auto
      have inn: "\<forall>d. balancedFrom (Suc d) (r # rest) \<longrightarrow>
        (\<exists>body tail ks. r # rest = body @ CHR ''}'' # tail \<and> balancedFrom 0 body \<and> balancedFrom d tail \<and>
            parseLoop (r # rest) i kids accum = (BraceNode (Some ks) [], i + length body + 1) \<and>
            (\<not> hasEmptyGroup (body @ ''}'') \<longrightarrow> flatKids ks = flatKids kids @ accum @ body))"
      proof (intro allI impI)
        fix d assume "balancedFrom (Suc d) (r # rest)"
        then have "balancedFrom (Suc d) rest" using bal by simp
        with IH obtain body tail ks where
          rest: "rest = body @ CHR ''}'' # tail" and bb: "balancedFrom 0 body" and bt: "balancedFrom d tail"
          and p: "parseLoop rest (i + 1) kids (accum @ [r]) = (BraceNode (Some ks) [], i + 1 + length body + 1)"
          and f: "\<not> hasEmptyGroup (body @ ''}'') \<longrightarrow> flatKids ks = flatKids kids @ (accum @ [r]) @ body"
          by blast
        have w: "r # rest = (r # body) @ CHR ''}'' # tail" using rest by simp
        have bb': "balancedFrom 0 (r # body)" using bb notopen False by simp
        have f': "\<not> hasEmptyGroup ((r # body) @ ''}'') \<longrightarrow> flatKids ks = flatKids kids @ accum @ (r # body)"
          using f hasEmptyGroup_ConsD[of r "body @ ''}''"] by auto
        have p': "parseLoop (r # rest) i kids accum = (BraceNode (Some ks) [], i + length (r # body) + 1)"
          using step p by simp
        show "\<exists>body tail ks. r # rest = body @ CHR ''}'' # tail \<and> balancedFrom 0 body \<and> balancedFrom d tail \<and>
            parseLoop (r # rest) i kids accum = (BraceNode (Some ks) [], i + length body + 1) \<and>
            (\<not> hasEmptyGroup (body @ ''}'') \<longrightarrow> flatKids ks = flatKids kids @ accum @ body)"
          using w bb' bt p' f' by blast
      qed
      from top inn show ?thesis by blast
    qed
  qed
qed

text \<open>
  C4, as the code has it. For every string with balanced braces \<open>ParseBraceTree\<close>
  consumes the whole string; when moreover no group is empty (no opening brace is followed
  at once by its closing brace), \<open>Flatten\<close> of the tree is the string with the white space
  at its ends trimmed.
\<close>

theorem ParseBraceTree_roundtrip:
  "(balanced s \<longrightarrow> snd (ParseBraceTree s) = length s) \<and>
   (balanced s \<and> \<not> hasEmptyGroup s \<longrightarrow> Flatten (fst (ParseBraceTree s)) = TrimSpace s)"
proof (cases "balanced s")
  case False
  then show ?thesis by simp
next
  case True
  then have b: "balancedFrom 0 s" by (simp add: balanced_def)
  from parseLoop_char[of s 0 "[]" "[]"] b obtain ks where
    p: "parseLoop s 0 [] [] = (BraceNode (Some ks) [], length s)"
    and f: "\<not> hasEmptyGroup s \<longrightarrow> flatKids ks = s"
    by auto
  have fl: "flatten (BraceNode (Some ks) []) True True = flatKids ks"
    by (cases ks) (simp_all add: flatKids_def)
  show ?thesis
    using True p f fl by (simp add: ParseBraceTree_def Flatten_def)
qed

theorem ParseBraceTree_roundtrip_witness:
  "balanced ''{hi {there this {is a nested} set}{or sets} of {strings}}'' \<and>
   \<not> hasEmptyGroup ''{hi {there this {is a nested} set}{or sets} of {strings}}'' \<and>
   snd (ParseBraceTree ''{hi {there this {is a nested} set}{or sets} of {strings}}'')
     = length ''{hi {there this {is a nested} set}{or sets} of {strings}}'' \<and>
   Flatten (fst (ParseBraceTree ''{hi {there this {is a nested} set}{or sets} of {strings}}''))
     = ''{hi {there this {is a nested} set}{or sets} of {strings}}'' \<and>
   balanced '' a {b}  '' \<and> \<not> hasEmptyGroup '' a {b}  '' \<and>
   Flatten (fst (ParseBraceTree '' a {b}  '')) = ''a {b}''"
proof -
  have b1: "balanced ''{hi {there this {is a nested} set}{or sets} of {strings}}'' \<and>
      \<not> hasEmptyGroup ''{hi {there this {is a nested} set}{or sets} of {strings}}''"
    by code_simp
  have t1: "TrimSpace ''{hi {there this {is a nested} set}{or sets} of {strings}}''
      = ''{hi {there this {is a nested} set}{or sets} of {strings}}''"
    by code_simp
  have b2: "balanced '' a {b}  '' \<and> \<not> hasEmptyGroup '' a {b}  ''"
    by code_simp
  have t2: "TrimSpace '' a {b}  '' = ''a {b}''"
    by code_simp
  show ?thesis
    using b1 t1 b2 t2
      ParseBraceTree_roundtrip[of "''{hi {there this {is a nested} set}{or sets} of {strings}}''"]
      ParseBraceTree_roundtrip[of "'' a {b}  ''"]
    by simp
qed

text \<open>
  C4 as stated fails on \<open>a{}b\<close>, which is balanced: the node of the empty group has no
  children, \<open>flatten\<close> takes it for a leaf with the empty text, and the braces are lost.
\<close>

theorem ParseBraceTree_empty_group_counterexample:
  "balanced ''a{}b'' \<and> snd (ParseBraceTree ''a{}b'') = length ''a{}b'' \<and>
   Flatten (fst (ParseBraceTree ''a{}b'')) = ''ab'' \<and> TrimSpace ''a{}b'' = ''a{}b''"
  by code_simp

section \<open>The von part of a name\<close>

lemma parseVonLoop_char:
  "- 1 \<le> j0 \<Longrightarrow>
   - 1 \<le> parseVonLoop lst j0 \<and> parseVonLoop lst j0 \<le> j0 \<and>
   (0 \<le> parseVonLoop lst j0 \<longrightarrow> firstRuneIs IsLower (lst ! nat (parseVonLoop lst j0))) \<and>
   (\<forall>j'. parseVonLoop lst j0 < j' \<and> j' \<le> j0 \<longrightarrow> \<not> firstRuneIs IsLower (lst ! nat j'))"
proof (induction lst j0 rule: parseVonLoop.induct)
  case (1 lst j)
  show ?case
  proof (cases "j \<ge> 0")
    case False
    then have "parseVonLoop lst j = j" by (simp add: parseVonLoop.simps[of lst j])
    then show ?thesis using "1.prems" False by auto
  next
    case True
    show ?thesis
    proof (cases "firstRuneIs IsLower (lst ! nat j)")
      case low: True
      then have "parseVonLoop lst j = j" using True by (simp add: parseVonLoop.simps[of lst j])
      then show ?thesis using True low by auto
    next
      case nolow: False
      have eq: "parseVonLoop lst j = parseVonLoop lst (j - 1)"
        using True nolow by (simp add: parseVonLoop.simps[of lst j])
      have IH: "- 1 \<le> parseVonLoop lst (j - 1) \<and> parseVonLoop lst (j - 1) \<le> j - 1 \<and>
         (0 \<le> parseVonLoop lst (j - 1) \<longrightarrow> firstRuneIs IsLower (lst ! nat (parseVonLoop lst (j - 1)))) \<and>
         (\<forall>j'. parseVonLoop lst (j - 1) < j' \<and> j' \<le> j - 1 \<longrightarrow> \<not> firstRuneIs IsLower (lst ! nat j'))"
        using "1.IH"[OF True nolow] True by simp
      have "\<forall>j'. parseVonLoop lst (j - 1) < j' \<and> j' \<le> j \<longrightarrow> \<not> firstRuneIs IsLower (lst ! nat j')"
      proof (intro allI impI)
        fix j' assume a: "parseVonLoop lst (j - 1) < j' \<and> j' \<le> j"
        show "\<not> firstRuneIs IsLower (lst ! nat j')"
        proof (cases "j' = j")
          case True
          then show ?thesis using nolow by simp
        next
          case False
          then have "j' \<le> j - 1" using a by simp
          then show ?thesis using IH a by blast
        qed
      qed
      then show ?thesis unfolding eq using IH by auto
    qed
  qed
qed

lemma parseVon_char:
  assumes "lst \<noteq> []"
  shows "\<exists>k < length lst.
           parseVon lst = Inr (Join (take k lst) '' '', Join (drop k lst) '' '') \<and>
           (k = 0 \<or> firstRuneIs IsLower (lst ! (k - 1))) \<and>
           (\<forall>j. k \<le> j \<and> j < length lst - 1 \<longrightarrow> \<not> firstRuneIs IsLower (lst ! j))"
proof (cases "length lst = 1")
  case True
  then obtain w where w: "lst = [w]" by (cases lst) auto
  show ?thesis
    by (rule exI[of _ 0]) (simp add: w parseVon_def)
next
  case False
  have "length lst \<noteq> 0" using assms by simp
  with False have len: "length lst \<ge> 2" by arith
  define j where "j = parseVonLoop lst (int (length lst) - 2)"
  have c: "- 1 \<le> j \<and> j \<le> int (length lst) - 2 \<and>
      (0 \<le> j \<longrightarrow> firstRuneIs IsLower (lst ! nat j)) \<and>
      (\<forall>j'. j < j' \<and> j' \<le> int (length lst) - 2 \<longrightarrow> \<not> firstRuneIs IsLower (lst ! nat j'))"
    unfolding j_def using parseVonLoop_char[of "int (length lst) - 2" lst] len by simp
  define k where "k = nat (j + 1)"
  have c1: "- 1 \<le> j" and c2: "j \<le> int (length lst) - 2" using c by blast+
  have kl: "k < length lst" using c1 c2 unfolding k_def by linarith
  have pv: "parseVon lst = Inr (Join (take k lst) '' '', Join (drop k lst) '' '')"
  proof (cases "j \<ge> 0")
    case True
    then show ?thesis using False c by (simp add: parseVon_def j_def[symmetric] k_def Let_def)
  next
    case neg: False
    then have "j = - 1" using c by simp
    then show ?thesis using False by (simp add: parseVon_def j_def[symmetric] k_def Let_def)
  qed
  have lowk: "k = 0 \<or> firstRuneIs IsLower (lst ! (k - 1))"
  proof (cases "j \<ge> 0")
    case True
    then have "k - 1 = nat j" by (simp add: k_def)
    then show ?thesis using c True by simp
  next
    case False
    then show ?thesis by (simp add: k_def)
  qed
  have rest: "\<forall>i. k \<le> i \<and> i < length lst - 1 \<longrightarrow> \<not> firstRuneIs IsLower (lst ! i)"
  proof (intro allI impI)
    fix i assume a: "k \<le> i \<and> i < length lst - 1"
    then have "j < int i \<and> int i \<le> int (length lst) - 2" using c1 c2 unfolding k_def by linarith
    then have "\<not> firstRuneIs IsLower (lst ! nat (int i))" using c by blast
    then show "\<not> firstRuneIs IsLower (lst ! i)" by simp
  qed
  show ?thesis
    by (intro exI[of _ k] conjI kl pv lowk rest)
qed

text \<open>
  C7, as the code has it. \<open>NormalizeName\<close> of \<open>von de Moo, Jr., Henry\<close> is the author
  with Von \<open>von de\<close>, Last \<open>Moo\<close>, Jr \<open>Jr.\<close> and First \<open>Henry\<close>, and of
  \<open>Henry von de Moo\<close> the author with the same First, Von and Last. For every non-empty
  list of words \<open>parseVon\<close> cuts the list at some \<open>k\<close> below its length, so that the final
  word always belongs to Last: Von is the first \<open>k\<close> words and ends at the last word before
  the final one that starts in lower case (\<open>k = 0\<close> and Von empty when there is none); the
  words of Von before that one may start in upper case.
\<close>

theorem NormalizeName_von_last:
  "NormalizeName ''von de Moo, Jr., Henry'' =
     Inr (Some \<lparr>Others = False, First = ''Henry'', Last = ''Moo'', Von = ''von de'', Jr = ''Jr.''\<rparr>) \<and>
   NormalizeName ''Henry von de Moo'' =
     Inr (Some \<lparr>Others = False, First = ''Henry'', Last = ''Moo'', Von = ''von de'', Jr = []\<rparr>) \<and>
   (lst \<noteq> [] \<longrightarrow>
     (\<exists>k < length lst.
        parseVon lst = Inr (Join (take k lst) '' '', Join (drop k lst) '' '') \<and>
        (k = 0 \<or> firstRuneIs IsLower (lst ! (k - 1))) \<and>
        (\<forall>j. k \<le> j \<and> j < length lst - 1 \<longrightarrow> \<not> firstRuneIs IsLower (lst ! j))))"
proof -
  have a: "NormalizeName ''von de Moo, Jr., Henry'' =
     Inr (Some \<lparr>Others = False, First = ''Henry'', Last = ''Moo'', Von = ''von de'', Jr = ''Jr.''\<rparr>)"
    by code_simp
  have b: "NormalizeName ''Henry von de Moo'' =
     Inr (Some \<lparr>Others = False, First = ''Henry'', Last = ''Moo'', Von = ''von de'', Jr = []\<rparr>)"
    by code_simp
  show ?thesis
    using a b parseVon_char[of lst] by (intro conjI impI) assumption+
qed

theorem NormalizeName_von_last_witness:
  "vonWords \<noteq> [] \<and>
   (\<exists>k < length vonWords.
        parseVon vonWords = Inr (Join (take k vonWords) '' '', Join (drop k vonWords) '' '') \<and>
        (k = 0 \<or> firstRuneIs IsLower (vonWords ! (k - 1))) \<and>
        (\<forall>j. k \<le> j \<and> j < length vonWords - 1 \<longrightarrow> \<not> firstRuneIs IsLower (vonWords ! j)))"
proof -
  have ne: "vonWords \<noteq> []" by (simp add: vonWords_def)
  show ?thesis
    using ne NormalizeName_von_last[of vonWords, THEN conjunct2, THEN conjunct2, THEN mp, OF ne]
    by (rule conjI)
qed

text \<open>
  C7 as stated fails on the words \<open>von Moo de Berry\<close>: the von part is \<open>von Moo de\<close>,
  which is no run of words that start in lower case (the longest such prefix is \<open>von\<close>).
\<close>

theorem parseVon_capitalised_inside_counterexample:
  "parseVon vonWords = Inr (''von Moo de'', ''Berry'') \<and>
   \<not> firstRuneIs IsLower ''Moo'' \<and>
   NormalizeName ''Henry von Moo de Berry'' =
     Inr (Some \<lparr>Others = False, First = ''Henry'', Last = ''Berry'', Von = ''von Moo de'', Jr = []\<rparr>) \<and>
   NormalizeName ''von Moo de Berry, Henry'' =
     Inr (Some \<lparr>Others = False, First = ''Henry'', Last = ''Berry'', Von = ''von Moo de'', Jr = []\<rparr>)"
  by code_simp

section \<open>The parser: repeated tags and \<open>@string\<close> blocks\<close>

lemma lower_table_fixed:
  "list_all (\<lambda>l. map_of (zip upperRunes lowerOfUpperRunes) l = None) lowerOfUpperRunes"
  by code_simp

lemma toLowerRune_idem: "toLowerRune (toLowerRune r) = toLowerRune r"
proof (cases "map_of (zip upperRunes lowerOfUpperRunes) r")
  case None
  then show ?thesis by (simp add: toLowerRune_def)
next
  case (Some l)
  then have "(r, l) \<in> set (zip upperRunes lowerOfUpperRunes)" by (rule map_of_SomeD)
  then have "l \<in> set lowerOfUpperRunes" by (rule set_zip_rightD)
  then have "map_of (zip upperRunes lowerOfUpperRunes) l = None"
    using lower_table_fixed by (simp add: list_all_iff)
  then show ?thesis using Some by (simp add: toLowerRune_def)
qed

lemma ToLower_idem: "ToLower (ToLower s) = ToLower s"
  by (simp add: ToLower_def toLowerRune_idem)

lemma lowerKeys_update:
  "lowerKeys e \<Longrightarrow> lowerKeys (e\<lparr>Fields := AList.update (ToLower t) v (Fields e)\<rparr>)"
  by (auto simp: lowerKeys_def distinct_update list_all_iff ToLower_idem update_keys)

lemma lowerKeys_readTagValue:
  "lowerKeys e \<Longrightarrow> lowerKeys (fst (snd (readTagValue e p)))"
  using lowerKeys_update[of e]
  by (cases "expectPeek EQUALS p") (auto simp: readTagValue_def Let_def split: option.splits bool.splits)

lemma lowerKeys_parseEntryLoop:
  "lowerKeys e \<Longrightarrow> fst (parseEntryLoop e p) = Some e' \<Longrightarrow> lowerKeys e'"
proof (induction e p rule: parseEntryLoop.induct)
  case (1 entry p)
  show ?case
  proof (cases "peekTokenIs p RBRACE")
    case True
    then show ?thesis using 1(2,3) by (simp add: parseEntryLoop.simps[of entry p])
  next
    case False
    obtain ok1 p1 where e1: "expectPeek IDENT p = (ok1, p1)" by (cases "expectPeek IDENT p")
    obtain ok2 entry2 p2 where e2: "readTagValue entry p1 = (ok2, entry2, p2)"
      by (cases "readTagValue entry p1")
    have ok1: ok1 using 1(3) False e1 by (cases ok1) (simp_all add: parseEntryLoop.simps[of entry p])
    have ok2: ok2 using 1(3) False e1 e2 ok1
      by (cases ok2) (simp_all add: parseEntryLoop.simps[of entry p])
    have lk: "lowerKeys entry2" using lowerKeys_readTagValue[OF 1(2), of p1] e2 by simp
    have res: "fst (parseEntryLoop entry2 (if peekTokenIs p2 COMMA then advanceTokens p2 else p2)) = Some e'"
      using 1(3) False e1 e2 ok1 ok2 by (simp add: parseEntryLoop.simps[of entry p])
    show ?thesis
    proof -
      have t1: "ok1 = True" using ok1 by simp
      have t2: "ok2 = True" using ok2 by simp
      show ?thesis by (rule "1.IH"[OF False e1[symmetric] t1 e2[symmetric] t2 refl lk res])
    qed
  qed
qed

lemma lowerKeys_parseEntryPairs:
  "lowerKeys e \<Longrightarrow> fst (parseEntryPairs e p) = Some e' \<Longrightarrow> lowerKeys e'"
  using lowerKeys_parseEntryLoop[of e "p\<lparr>bracesAsString := True\<rparr>" e']
  by (cases "parseEntryLoop e (p\<lparr>bracesAsString := True\<rparr>)") (simp add: parseEntryPairs_def)

lemma lowerKeys_parsePreamble: "fst (parsePreamble p) = Some e' \<Longrightarrow> lowerKeys e'"
  by (auto simp: parsePreamble_def Let_def lowerKeys_def newEntry_def split: prod.splits bool.splits)

lemma lowerKeys_parseEntry:
  assumes "fst (parseEntry p) = Some e'"
  shows "lowerKeys e'"
proof (cases "peekTokenIs p IDENT \<and> toEntryKind (Literal (peekToken p)) = PreambleKind")
  case True
  then show ?thesis using assms lowerKeys_parsePreamble[of p e'] by (simp add: parseEntry_def)
next
  case False
  have n: "\<And>k s key. lowerKeys (newEntry\<lparr>Kind := k, EntryString := s\<rparr>)"
         "\<And>k s key. lowerKeys (newEntry\<lparr>Kind := k, EntryString := s, Key := key\<rparr>)"
    by (simp_all add: lowerKeys_def newEntry_def)
  obtain ok1 p1 where e1: "expectPeek IDENT p = (ok1, p1)" by (cases "expectPeek IDENT p")
  obtain ok2 p2 where e2: "expectPeek LBRACE p1 = (ok2, p2)" by (cases "expectPeek LBRACE p1")
  obtain ok3 p3 where e3: "expectPeek IDENT p2 = (ok3, p3)" by (cases "expectPeek IDENT p2")
  obtain ok4 p4 where e4: "expectPeek COMMA p3 = (ok4, p4)" by (cases "expectPeek COMMA p3")
  show ?thesis
    using assms False e1 e2 e3 e4 lowerKeys_parseEntryPairs[OF n(1)] lowerKeys_parseEntryPairs[OF n(2)]
    by (cases ok1; cases ok2; cases ok3; cases ok4) (auto simp: parseEntry_def Let_def split: if_splits)
qed

text \<open>
  C9. The claim: when the same lower-cased tag appears more than once in an entry, the value
  of the first occurrence is kept in \<open>Fields\<close>. The parser on
  \<open>@article{k, title = {A}, Title = {B}}\<close>: one publication is read, without a syntax error,
  and its field \<open>title\<close> has the value of the second occurrence, \<open>B\<close>.
\<close>

theorem ParseBibTeX_repeated_tag_keeps_last:
  "parsedPubs (ParseBibTeX dupTagText) =
     Some [\<lparr>Kind = Article, EntryString = ''article'', Key = ''k'',
            Fields = [(''title'', strV ''B'')], AuthorList = [], LineNo = 0\<rparr>] \<and>
   parsedMsgs (ParseBibTeX dupTagText) = Some []"
  by code_simp

text \<open>
  C10, as the code has it. When the current token is \<open>@\<close> and \<open>parseEntry\<close> returns a
  \<open>@string\<close> entry, the fields of the entry are the definitions of the block under their
  lower-cased names, each name once. With exactly one name, the turn of the loop of
  \<open>ParseBibTeX\<close> binds it in \<open>Symbols\<close> and records no error; with none, or more than
  one, it leaves the database as it was and records the error
  \<open>Wrong number of string definitions in @string\<close>.
\<close>

theorem parseUnit_string_block:
  assumes "Type (curToken p) = AT" and "fst (parseEntry p) = Some e" and "Kind e = StringKind"
  shows "lowerKeys e \<and>
         (length (Fields e) = 1 \<longrightarrow>
            parseUnit (db, p) =
              (db\<lparr>Symbols := Symbols db ++ map_of (Fields e)\<rparr>, snd (parseEntry p))) \<and>
         (length (Fields e) \<noteq> 1 \<longrightarrow>
            parseUnit (db, p) =
              (db, addError ''Wrong number of string definitions in @string'' (snd (parseEntry p))))"
proof -
  obtain r p' where pe: "parseEntry p = (r, p')" by (cases "parseEntry p")
  have r: "r = Some e" using assms(2) pe by simp
  have lk: "lowerKeys e" by (rule lowerKeys_parseEntry[OF assms(2)])
  have one: "parseUnit (db, p) = (db\<lparr>Symbols := Symbols db ++ map_of (Fields e)\<rparr>, p')"
    if "length (Fields e) = 1"
  proof -
    have "\<exists>k v. Fields e = [(k, v)]"
      using that by (cases "Fields e") auto
    then obtain k v where kv: "Fields e = [(k, v)]" by blast
    have "Symbols db ++ map_of [(k, v)] = (Symbols db)(k \<mapsto> v)" by (rule ext) (simp add: map_add_def)
    then show ?thesis using assms(1,3) pe r kv by (simp add: parseUnit_def storeEntry_def)
  qed
  have many: "parseUnit (db, p) = (db, addError ''Wrong number of string definitions in @string'' p')"
    if "length (Fields e) \<noteq> 1"
    using that assms(1,3) pe r by (simp add: parseUnit_def storeEntry_def)
  show ?thesis using lk one many pe by simp
qed

theorem parseUnit_string_block_witness:
  "NewParser twoDefsText =
     (Some (curToken twoDefsParser), Some (peekToken twoDefsParser), lex twoDefsParser) \<and>
   fst (parseEntry twoDefsParser) = Some twoDefsEntry \<and>
   lowerKeys twoDefsEntry \<and>
   length (Fields twoDefsEntry) = 2 \<and>
   parseUnit (NewDatabase, twoDefsParser) =
     (NewDatabase,
      addError ''Wrong number of string definitions in @string'' (snd (parseEntry twoDefsParser)))"
proof -
  have np: "NewParser twoDefsText =
     (Some (curToken twoDefsParser), Some (peekToken twoDefsParser), lex twoDefsParser)"
    by code_simp
  have a: "Type (curToken twoDefsParser) = AT" by (simp add: twoDefsParser_def)
  have b: "fst (parseEntry twoDefsParser) = Some twoDefsEntry" by code_simp
  have c: "Kind twoDefsEntry = StringKind" by (simp add: twoDefsEntry_def)
  have d: "length (Fields twoDefsEntry) = 2" by (simp add: twoDefsEntry_def)
  show ?thesis
    using parseUnit_string_block[OF a b c, of NewDatabase] np b d by simp
qed

text \<open>
  C10, as the claim has it, on \<open>@string{ a = "x", b = "y" }\<close>: the block defines two
  pairs, so the claim has both inserted and no error; the parser records the count error
  and binds neither \<open>a\<close> nor \<open>b\<close>.
\<close>

theorem ParseBibTeX_two_definitions_counterexample:
  "parsedMsgs (ParseBibTeX twoDefsText) = Some [''Wrong number of string definitions in @string''] \<and>
   parsedSymbol (ParseBibTeX twoDefsText) ''a'' = Some None \<and>
   parsedSymbol (ParseBibTeX twoDefsText) ''b'' = Some None"
  by code_simp

end
